theory Spec2Isabelle
  imports Complex_Main
begin

section \<open>The rate cache of server/main.go\<close>

text \<open>
  The server keeps one process-wide cache of the last response of the upstream rate
  provider. \<open>getRates\<close> serves a fresh snapshot from the cache and otherwise calls
  \<open>fetchFrankfurter\<close>; \<open>filterRates\<close> cuts a snapshot down to the target currencies.

  Go's \<open>float64\<close> rates are only copied, never computed with, and the JSON decoder
  yields finite values only, so a rate is a \<open>real\<close>. A \<open>time.Time\<close> is a number of
  nanoseconds on the process's clock, \<open>time.Time{}\<close> is \<open>0\<close>, and a
  \<open>time.Duration\<close> is a number of nanoseconds in the range of \<open>int64\<close>.
\<close>

subsection \<open>Constants and data\<close>

type_synonym float64 = real
type_synonym time = int
type_synonym duration = int

definition cacheTTL :: duration where
  "cacheTTL = 5 * (60 * 1000000000)"

definition targetCurrencies :: "string list" where
  "targetCurrencies = [''CNY'', ''SEK'', ''EUR'']"

definition StatusOK :: int where
  "StatusOK = 200"

record frankfurterResponse =
  Base :: string
  Date :: string
  Rates :: "string \<rightharpoonup> float64"

text \<open>
  \<open>rateCache\<close> without its mutex, which the section on concurrent calls models.
  A nil \<open>payload\<close> pointer is \<open>None\<close>.
\<close>

record rateCache =
  payload :: "frankfurterResponse option"
  fetchedAt :: time

definition initial_cache :: rateCache where
  "initial_cache = \<lparr>payload = None, fetchedAt = 0\<rparr>"

text \<open>
  Go's \<open>error\<close> values. \<open>ErrorString\<close> is what \<open>errors.New\<close> builds; the other three
  are the errors of the library calls \<open>http.NewRequestWithContext\<close>, \<open>httpClient.Do\<close>
  and \<open>Decoder.Decode\<close>, which the code passes on as they are.
\<close>

datatype error =
  ErrorString string
| RequestError string
| TransportError string
| DecodeError string

text \<open>
  What the network does on one call of \<open>fetchFrankfurter\<close>: building the request fails,
  the round trip fails, or a response arrives. \<open>Body\<close> is what decoding the response
  body as JSON gives: an error message or the decoded struct.
\<close>

record http_response =
  StatusCode :: int
  Status :: string
  Body :: "string + frankfurterResponse"

datatype http_outcome =
  NewRequestFailed string
| DoFailed string
| Responded http_response

subsection \<open>The clock\<close>

definition maxDuration :: duration where
  "maxDuration = 2 ^ 63 - 1"

definition minDuration :: duration where
  "minDuration = - (2 ^ 63)"

text \<open>\<open>Time.Sub\<close> saturates at the ends of \<open>int64\<close>.\<close>

definition Sub :: "time \<Rightarrow> time \<Rightarrow> duration" where
  "Sub t u =
     (let d = t - u in
      if d > maxDuration then maxDuration
      else if d < minDuration then minDuration
      else d)"

text \<open>\<open>time.Since(t)\<close> is \<open>time.Now().Sub(t)\<close>; the clock reading is the first argument.\<close>

definition Since :: "time \<Rightarrow> time \<Rightarrow> duration" where
  "Since now t = Sub now t"

subsection \<open>filterRates\<close>

text \<open>
  The loop of \<open>filterRates\<close> over a list of codes, with the result map built so far.
  A nil \<open>Rates\<close> map reads as the empty map.
\<close>

fun filterRates_loop ::
  "string list \<Rightarrow> (string \<rightharpoonup> float64) \<Rightarrow> (string \<rightharpoonup> float64) \<Rightarrow> (string \<rightharpoonup> float64)" where
  "filterRates_loop [] rates result = result"
| "filterRates_loop (code # codes) rates result =
     (case rates code of
        Some v \<Rightarrow> filterRates_loop codes rates (result(code \<mapsto> v))
      | None \<Rightarrow> filterRates_loop codes rates result)"

definition filterRates :: "frankfurterResponse \<Rightarrow> (string \<rightharpoonup> float64)" where
  "filterRates p = filterRates_loop targetCurrencies (Rates p) Map.empty"

subsection \<open>fetchFrankfurter\<close>

text \<open>
  The second argument is the reading of \<open>time.Now()\<close> on the last line, taken after
  the body has been decoded and checked.
\<close>

definition fetchFrankfurter :: "http_outcome \<Rightarrow> time \<Rightarrow> error + (frankfurterResponse \<times> time)" where
  "fetchFrankfurter net now =
     (case net of
        NewRequestFailed msg \<Rightarrow> Inl (RequestError msg)
      | DoFailed msg \<Rightarrow> Inl (TransportError msg)
      | Responded resp \<Rightarrow>
          if StatusCode resp \<noteq> StatusOK
          then Inl (ErrorString (''frankfurter responded with status '' @ Status resp))
          else (case Body resp of
                  Inl msg \<Rightarrow> Inl (DecodeError msg)
                | Inr p \<Rightarrow>
                    if Base p \<noteq> ''USD''
                    then Inl (ErrorString ''unexpected base currency in response'')
                    else Inr (p, now)))"

subsection \<open>getRates, one call running alone\<close>

text \<open>
  What one call of \<open>getRates\<close> reads from outside: the clock at the freshness check
  under the read lock, the clock at the check under the write lock, the network, and
  the clock at the end of \<open>fetchFrankfurter\<close>.
\<close>

record env =
  now_rlock :: time
  now_lock :: time
  upstream :: http_outcome
  now_fetch :: time

text \<open>
  The program state: the global \<open>cache\<close>, and a counter of the calls of
  \<open>fetchFrankfurter\<close> made so far, which the code does not have.
\<close>

record state =
  cache :: rateCache
  fetch_calls :: nat

type_synonym rates_result = "error + ((string \<rightharpoonup> float64) \<times> time)"

text \<open>The condition \<open>cache.payload != nil && time.Since(cache.fetchedAt) < cacheTTL\<close>.\<close>

definition fresh :: "time \<Rightarrow> rateCache \<Rightarrow> bool" where
  "fresh now c = (payload c \<noteq> None \<and> Since now (fetchedAt c) < cacheTTL)"

text \<open>
  The end of \<open>getRates\<close>, from the call of \<open>fetchFrankfurter\<close> on: an error is
  returned with the cache untouched, a result is stored in both fields of the cache
  and returned filtered.
\<close>

definition getRates_refresh :: "env \<Rightarrow> state \<Rightarrow> rates_result \<times> state" where
  "getRates_refresh e s =
     (case fetchFrankfurter (upstream e) (now_fetch e) of
        Inl err \<Rightarrow> (Inl err, s\<lparr>fetch_calls := Suc (fetch_calls s)\<rparr>)
      | Inr (p, t) \<Rightarrow>
          (Inr (filterRates p, t),
           \<lparr>cache = \<lparr>payload = Some p, fetchedAt = t\<rparr>,
            fetch_calls = Suc (fetch_calls s)\<rparr>))"

text \<open>The part of \<open>getRates\<close> under the write lock.\<close>

definition getRates_locked :: "env \<Rightarrow> state \<Rightarrow> rates_result \<times> state" where
  "getRates_locked e s =
     (case payload (cache s) of
        Some p \<Rightarrow>
          if Since (now_lock e) (fetchedAt (cache s)) < cacheTTL
          then (Inr (filterRates p, fetchedAt (cache s)), s)
          else getRates_refresh e s
      | None \<Rightarrow> getRates_refresh e s)"

text \<open>
  The whole call, when no other call changes the cache between the read lock's
  release and the write lock's acquisition.
\<close>

definition getRates :: "env \<Rightarrow> state \<Rightarrow> rates_result \<times> state" where
  "getRates e s =
     (case payload (cache s) of
        Some p \<Rightarrow>
          if Since (now_rlock e) (fetchedAt (cache s)) < cacheTTL
          then (Inr (filterRates p, fetchedAt (cache s)), s)
          else getRates_locked e s
      | None \<Rightarrow> getRates_locked e s)"

text \<open>
  A sequence of calls, one after the other, each with its own readings; the results
  are dropped and the state is threaded through.
\<close>

fun run_calls :: "env list \<Rightarrow> state \<Rightarrow> state" where
  "run_calls [] s = s"
| "run_calls (e # es) s = run_calls es (snd (getRates e s))"

subsection \<open>handleAllRate\<close>

text \<open>
  The handler's reply: \<open>http.Error\<close> with a message and a status code, or the JSON
  encoding of an \<open>apiResponse\<close> with status 200. Log lines are not modelled, and
  \<open>fetchedAt.UTC()\<close> is the same instant.
\<close>

record apiResponse =
  apiBase :: string
  UpdatedAt :: time
  apiRates :: "string \<rightharpoonup> float64"

datatype reply =
  Error string int
| JSON apiResponse

definition MethodGet :: string where
  "MethodGet = ''GET''"

definition StatusMethodNotAllowed :: int where
  "StatusMethodNotAllowed = 405"

definition StatusBadGateway :: int where
  "StatusBadGateway = 502"

definition handleAllRate :: "string \<Rightarrow> env \<Rightarrow> state \<Rightarrow> reply \<times> state" where
  "handleAllRate method e s =
     (if method \<noteq> MethodGet then (Error ''method not allowed'' StatusMethodNotAllowed, s)
      else (case getRates e s of
              (Inl err, s') \<Rightarrow> (Error ''failed to fetch rates'' StatusBadGateway, s')
            | (Inr (rates, t), s') \<Rightarrow>
                (JSON \<lparr>apiBase = ''USD'', UpdatedAt = t, apiRates = rates\<rparr>, s')))"

subsection \<open>The rate maps as objects\<close>

text \<open>
  A Go map value is a reference to a table that every holder of the reference can
  write to. To speak of which table a call returns, the tables are kept in a heap: a
  list of maps, a reference being an index into it. \<open>make\<close> appends an empty
  table and the JSON decoder appends the table it fills; nothing is ever freed. The
  struct behind \<open>cache.payload\<close> is never written after it has been decoded, so it
  stays a value, holding the reference of its \<open>Rates\<close> table. A response without
  rates decodes to a nil map, which reads like an empty table and is modelled as one.
  Go has no dangling references: every reference the program holds is an index of
  the heap, which \<open>wf_hstate\<close> below says of the cached one.
\<close>

type_synonym ref = nat

type_synonym heap = "(string \<rightharpoonup> float64) list"

definition make_map :: "heap \<Rightarrow> ref \<times> heap" where
  "make_map h = (length h, h @ [Map.empty])"

record frankfurterResponse_ref =
  Base_ref :: string
  Date_ref :: string
  Rates_ref :: ref

record rateCache_ref =
  payload_ref :: "frankfurterResponse_ref option"
  fetchedAt_ref :: time

record hstate =
  cache_ref :: rateCache_ref
  heap :: heap

text \<open>
  \<open>filterRates\<close> on references: the loop reads the table \<open>src\<close> and writes the table
  \<open>result\<close>, which \<open>filterRates_h\<close> has just made.
\<close>

fun filterRates_loop_h :: "string list \<Rightarrow> ref \<Rightarrow> ref \<Rightarrow> heap \<Rightarrow> heap" where
  "filterRates_loop_h [] src result h = h"
| "filterRates_loop_h (code # codes) src result h =
     (case (h ! src) code of
        Some v \<Rightarrow> filterRates_loop_h codes src result (h[result := (h ! result)(code \<mapsto> v)])
      | None \<Rightarrow> filterRates_loop_h codes src result h)"

definition filterRates_h :: "frankfurterResponse_ref \<Rightarrow> heap \<Rightarrow> ref \<times> heap" where
  "filterRates_h p h =
     (case make_map h of
        (result, h') \<Rightarrow> (result, filterRates_loop_h targetCurrencies (Rates_ref p) result h'))"

text \<open>
  \<open>fetchFrankfurter\<close> on references: the decoded rates become a new table. The
  three parts of \<open>getRates\<close> follow, as above with references for maps.
\<close>

definition fetchFrankfurter_h ::
  "http_outcome \<Rightarrow> time \<Rightarrow> heap \<Rightarrow> (error + (frankfurterResponse_ref \<times> time)) \<times> heap" where
  "fetchFrankfurter_h net now h =
     (case fetchFrankfurter net now of
        Inl err \<Rightarrow> (Inl err, h)
      | Inr (p, t) \<Rightarrow>
          (Inr (\<lparr>Base_ref = Base p, Date_ref = Date p, Rates_ref = length h\<rparr>, t),
           h @ [Rates p]))"

definition getRates_refresh_h :: "env \<Rightarrow> hstate \<Rightarrow> (error + (ref \<times> time)) \<times> hstate" where
  "getRates_refresh_h e s =
     (case fetchFrankfurter_h (upstream e) (now_fetch e) (heap s) of
        (Inl err, h) \<Rightarrow> (Inl err, s\<lparr>heap := h\<rparr>)
      | (Inr (p, t), h) \<Rightarrow>
          (case filterRates_h p h of
             (result, h') \<Rightarrow>
               (Inr (result, t),
                \<lparr>cache_ref = \<lparr>payload_ref = Some p, fetchedAt_ref = t\<rparr>, heap = h'\<rparr>)))"

definition getRates_locked_h :: "env \<Rightarrow> hstate \<Rightarrow> (error + (ref \<times> time)) \<times> hstate" where
  "getRates_locked_h e s =
     (case payload_ref (cache_ref s) of
        Some p \<Rightarrow>
          if Since (now_lock e) (fetchedAt_ref (cache_ref s)) < cacheTTL
          then (case filterRates_h p (heap s) of
                  (result, h') \<Rightarrow> (Inr (result, fetchedAt_ref (cache_ref s)), s\<lparr>heap := h'\<rparr>))
          else getRates_refresh_h e s
      | None \<Rightarrow> getRates_refresh_h e s)"

definition getRates_h :: "env \<Rightarrow> hstate \<Rightarrow> (error + (ref \<times> time)) \<times> hstate" where
  "getRates_h e s =
     (case payload_ref (cache_ref s) of
        Some p \<Rightarrow>
          if Since (now_rlock e) (fetchedAt_ref (cache_ref s)) < cacheTTL
          then (case filterRates_h p (heap s) of
                  (result, h') \<Rightarrow> (Inr (result, fetchedAt_ref (cache_ref s)), s\<lparr>heap := h'\<rparr>))
          else getRates_locked_h e s
      | None \<Rightarrow> getRates_locked_h e s)"

text \<open>
  What a state with references denotes: the cache with every reference replaced by
  the table it points to. A state is well formed when the cached reference points
  into the heap. \<open>caller_writes r m\<close> is a caller of \<open>getRates\<close> overwriting
  the table behind the reference \<open>r\<close> it was given with any contents \<open>m\<close>.
\<close>

definition abs_payload :: "heap \<Rightarrow> frankfurterResponse_ref \<Rightarrow> frankfurterResponse" where
  "abs_payload h p = \<lparr>Base = Base_ref p, Date = Date_ref p, Rates = h ! Rates_ref p\<rparr>"

definition abs_cache :: "hstate \<Rightarrow> rateCache" where
  "abs_cache s =
     \<lparr>payload = map_option (abs_payload (heap s)) (payload_ref (cache_ref s)),
      fetchedAt = fetchedAt_ref (cache_ref s)\<rparr>"

definition wf_hstate :: "hstate \<Rightarrow> bool" where
  "wf_hstate s =
     (case payload_ref (cache_ref s) of None \<Rightarrow> True | Some p \<Rightarrow> Rates_ref p < length (heap s))"

definition caller_writes :: "ref \<Rightarrow> (string \<rightharpoonup> float64) \<Rightarrow> hstate \<Rightarrow> hstate" where
  "caller_writes r m s = s\<lparr>heap := (heap s)[r := m]\<rparr>"

text \<open>
  The state after a call that served the cached snapshot, and what it means that
  the reference \<open>r\<close> returned by a call from \<open>s\<close> to \<open>s'\<close> is new: it lies beyond
  the old heap, the cache does not hold it, and the old tables are as they were.
\<close>

definition served_h :: "hstate \<Rightarrow> (error + (ref \<times> time)) \<times> hstate" where
  "served_h s =
     (Inr (length (heap s), fetchedAt_ref (cache_ref s)),
      s\<lparr>heap := heap s @ [filterRates (abs_payload (heap s) (the (payload_ref (cache_ref s))))]\<rparr>)"

definition result_fresh :: "hstate \<Rightarrow> ref \<Rightarrow> hstate \<Rightarrow> bool" where
  "result_fresh s r s' =
     (length (heap s) \<le> r \<and> r < length (heap s')
      \<and> (case payload_ref (cache_ref s') of None \<Rightarrow> True | Some p \<Rightarrow> Rates_ref p \<noteq> r)
      \<and> take (length (heap s)) (heap s') = heap s
      \<and> wf_hstate s')"

subsection \<open>Concurrent calls\<close>

text \<open>
  Several goroutines run \<open>getRates\<close> at once. Each is at a program point, named
  after the source line it is about to execute:
  \<^item> \<open>L88\<close>: before \<open>cache.mu.RLock()\<close>;
  \<^item> \<open>L89\<close>: holds the read lock, before the freshness condition;
  \<^item> \<open>L91\<close>: the condition held, before the \<open>return\<close> with its deferred \<open>RUnlock\<close>;
  \<^item> \<open>L93\<close>: the condition failed, before \<open>cache.mu.RUnlock()\<close>;
  \<^item> \<open>L95\<close>: before \<open>cache.mu.Lock()\<close>;
  \<^item> \<open>L97\<close>: holds the write lock, before the second freshness condition;
  \<^item> \<open>L98\<close>: the condition held, before the \<open>return\<close> with its deferred \<open>Unlock\<close>;
  \<^item> \<open>L101\<close>: before the call of \<open>fetchFrankfurter\<close>;
  \<^item> \<open>L106 p t\<close>: the fetch returned \<open>p\<close> and \<open>t\<close>, before \<open>cache.payload = payload\<close>;
  \<^item> \<open>L107 p t\<close>: before \<open>cache.fetchedAt = fetchedAt\<close>;
  \<^item> \<open>L109 p\<close>: before the last \<open>return\<close> with the deferred \<open>Unlock\<close>;
  \<^item> \<open>Returned r\<close>: the call has returned \<open>r\<close>;
  \<^item> \<open>Panicked\<close>: \<open>filterRates\<close> dereferenced a nil \<open>payload\<close>.
\<close>

datatype pc =
  L88
| L89
| L91
| L93
| L95
| L97
| L98
| L101
| L106 frankfurterResponse time
| L107 frankfurterResponse time
| L109 frankfurterResponse
| Returned rates_result
| Panicked

text \<open>
  The shared state: the cache, the \<open>sync.RWMutex\<close> as the number of goroutines
  holding the read lock and whether one holds the write lock, the program point of
  every goroutine, and the outcomes of the calls of \<open>fetchFrankfurter\<close> made so far,
  oldest first, \<open>True\<close> for a success. The code has no such log.
\<close>

record config =
  shared :: rateCache
  readers :: nat
  writer :: bool
  pcs :: "nat \<Rightarrow> pc"
  fetch_log :: "bool list"

definition goto :: "nat \<Rightarrow> pc \<Rightarrow> config \<Rightarrow> config" where
  "goto i l c = c\<lparr>pcs := (pcs c)(i := l)\<rparr>"

text \<open>
  Goroutine \<open>i\<close> executes its next statement, reading \<open>now\<close> off the clock or
  \<open>net\<close> off the network where the statement does so. There is no step (\<open>None\<close>)
  when it waits for a lock another goroutine holds, when it has returned, and at an
  \<open>RUnlock\<close> of a mutex nobody has read-locked, which stops the process. A
  \<open>return\<close> evaluates its results and runs the deferred unlock in one step, and the
  error check after \<open>fetchFrankfurter\<close> belongs to the step of the call. \<open>RLock\<close>
  succeeds whenever no goroutine holds the write lock; Go also holds new readers
  back while a writer waits, which only takes schedules away.
\<close>

definition step :: "nat \<Rightarrow> time \<Rightarrow> http_outcome \<Rightarrow> config \<Rightarrow> config option" where
  "step i now net c =
     (case pcs c i of
        L88 \<Rightarrow>
          if writer c then None
          else Some (goto i L89 (c\<lparr>readers := Suc (readers c)\<rparr>))
      | L89 \<Rightarrow>
          Some (if fresh now (shared c) then goto i L91 c else goto i L93 c)
      | L91 \<Rightarrow>
          (case readers c of
             0 \<Rightarrow> None
           | Suc n \<Rightarrow>
               (case payload (shared c) of
                  None \<Rightarrow> Some (goto i Panicked (c\<lparr>readers := n\<rparr>))
                | Some p \<Rightarrow>
                    Some (goto i (Returned (Inr (filterRates p, fetchedAt (shared c))))
                           (c\<lparr>readers := n\<rparr>))))
      | L93 \<Rightarrow>
          (case readers c of
             0 \<Rightarrow> None
           | Suc n \<Rightarrow> Some (goto i L95 (c\<lparr>readers := n\<rparr>)))
      | L95 \<Rightarrow>
          if writer c \<or> readers c \<noteq> 0 then None
          else Some (goto i L97 (c\<lparr>writer := True\<rparr>))
      | L97 \<Rightarrow>
          Some (if fresh now (shared c) then goto i L98 c else goto i L101 c)
      | L98 \<Rightarrow>
          (case payload (shared c) of
             None \<Rightarrow> Some (goto i Panicked (c\<lparr>writer := False\<rparr>))
           | Some p \<Rightarrow>
               Some (goto i (Returned (Inr (filterRates p, fetchedAt (shared c))))
                      (c\<lparr>writer := False\<rparr>)))
      | L101 \<Rightarrow>
          (case fetchFrankfurter net now of
             Inl err \<Rightarrow>
               Some (goto i (Returned (Inl err))
                      (c\<lparr>writer := False, fetch_log := fetch_log c @ [False]\<rparr>))
           | Inr (p, t) \<Rightarrow>
               Some (goto i (L106 p t) (c\<lparr>fetch_log := fetch_log c @ [True]\<rparr>)))
      | L106 p t \<Rightarrow>
          Some (goto i (L107 p t) (c\<lparr>shared := (shared c)\<lparr>payload := Some p\<rparr>\<rparr>))
      | L107 p t \<Rightarrow>
          Some (goto i (L109 p) (c\<lparr>shared := (shared c)\<lparr>fetchedAt := t\<rparr>\<rparr>))
      | L109 p \<Rightarrow>
          Some (goto i (Returned (Inr (filterRates p, fetchedAt (shared c))))
                 (c\<lparr>writer := False\<rparr>))
      | Returned r \<Rightarrow> None
      | Panicked \<Rightarrow> None)"

text \<open>
  A schedule is a list of events, each naming the goroutine that moves and what it
  reads. \<open>run\<close> executes a schedule and gives \<open>None\<close> when one of its steps cannot
  be taken. At the start every goroutine is about to call \<open>getRates\<close>.
\<close>

record event =
  who :: nat
  clock :: time
  network :: http_outcome

fun run :: "event list \<Rightarrow> config \<Rightarrow> config option" where
  "run [] c = Some c"
| "run (ev # evs) c =
     (case step (who ev) (clock ev) (network ev) c of
        None \<Rightarrow> None
      | Some c' \<Rightarrow> run evs c')"

definition init_config :: "rateCache \<Rightarrow> config" where
  "init_config c0 =
     \<lparr>shared = c0, readers = 0, writer = False, pcs = (\<lambda>i. L88), fetch_log = []\<rparr>"

text \<open>
  All clock readings of a schedule lie in the window of length \<open>cacheTTL\<close> that
  starts at \<open>T0\<close>; a cache is stale throughout that window; the number of calls of
  \<open>fetchFrankfurter\<close> made, and of those that succeeded.
\<close>

definition in_window :: "time \<Rightarrow> event list \<Rightarrow> bool" where
  "in_window T0 evs = list_all (\<lambda>ev. T0 \<le> clock ev \<and> clock ev < T0 + cacheTTL) evs"

definition stale_from :: "time \<Rightarrow> rateCache \<Rightarrow> bool" where
  "stale_from T0 c0 = (payload c0 = None \<or> fetchedAt c0 + cacheTTL \<le> T0)"

definition invocations :: "config \<Rightarrow> nat" where
  "invocations c = length (fetch_log c)"

definition successes :: "config \<Rightarrow> nat" where
  "successes c = length (filter id (fetch_log c))"

text \<open>
  One goroutine running alone for at most \<open>n\<close> steps, with the clock readings and
  the network outcome of \<open>e\<close>.
\<close>

definition reading :: "env \<Rightarrow> pc \<Rightarrow> time" where
  "reading e l = (case l of L89 \<Rightarrow> now_rlock e | L97 \<Rightarrow> now_lock e | _ \<Rightarrow> now_fetch e)"

fun run_alone :: "nat \<Rightarrow> nat \<Rightarrow> env \<Rightarrow> config \<Rightarrow> config" where
  "run_alone 0 i e c = c"
| "run_alone (Suc n) i e c =
     (case step i (reading e (pcs c i)) (upstream e) c of
        None \<Rightarrow> c
      | Some c' \<Rightarrow> run_alone n i e c')"

text \<open>
  The invariants of the concurrent runs. \<open>mutex\<close>: at most one goroutine is between
  \<open>L97\<close> and \<open>L109\<close>, and then the write lock is held. \<open>stamps\<close>: a fetched time
  waiting to be stored lies in the window, a goroutine about to dereference the
  payload finds one, and no goroutine has panicked. \<open>single\<close>: a goroutine about to
  fetch has seen no successful fetch; after a successful fetch the cache holds a
  snapshot stamped in the window or the fetching goroutine is about to store it; only
  the last logged fetch can be a success. \<open>served\<close>: the cache is the initial one
  until a fetch succeeds, and only then does any goroutine hold rates.
\<close>

fun in_cs :: "pc \<Rightarrow> bool" where
  "in_cs L97 = True"
| "in_cs L98 = True"
| "in_cs L101 = True"
| "in_cs (L106 p t) = True"
| "in_cs (L107 p t) = True"
| "in_cs (L109 p) = True"
| "in_cs l = False"

fun stamped :: "time \<Rightarrow> pc \<Rightarrow> bool" where
  "stamped T0 (L106 p t) = (T0 \<le> t)"
| "stamped T0 (L107 p t) = (T0 \<le> t)"
| "stamped T0 l = True"

fun is_storing :: "pc \<Rightarrow> bool" where
  "is_storing (L106 p t) = True"
| "is_storing (L107 p t) = True"
| "is_storing l = False"

fun is_L106 :: "pc \<Rightarrow> bool" where
  "is_L106 (L106 p t) = True"
| "is_L106 l = False"

fun is_L107 :: "pc \<Rightarrow> bool" where
  "is_L107 (L107 p t) = True"
| "is_L107 l = False"

fun derefs :: "pc \<Rightarrow> bool" where
  "derefs L91 = True"
| "derefs L98 = True"
| "derefs l = False"

fun has_rates :: "pc \<Rightarrow> bool" where
  "has_rates L91 = True"
| "has_rates L98 = True"
| "has_rates (L106 p t) = True"
| "has_rates (L107 p t) = True"
| "has_rates (L109 p) = True"
| "has_rates (Returned (Inr r)) = True"
| "has_rates l = False"

definition settled :: "time \<Rightarrow> rateCache \<Rightarrow> bool" where
  "settled T0 sh = (payload sh \<noteq> None \<and> T0 \<le> fetchedAt sh)"

definition mutex :: "config \<Rightarrow> bool" where
  "mutex c =
     ((\<forall>i j. in_cs (pcs c i) \<longrightarrow> in_cs (pcs c j) \<longrightarrow> i = j)
      \<and> (\<forall>i. in_cs (pcs c i) \<longrightarrow> writer c))"

definition stamps :: "time \<Rightarrow> config \<Rightarrow> bool" where
  "stamps T0 c =
     ((\<forall>i. stamped T0 (pcs c i))
      \<and> (\<forall>i. is_L107 (pcs c i) \<longrightarrow> payload (shared c) \<noteq> None)
      \<and> (\<forall>i. derefs (pcs c i) \<longrightarrow> payload (shared c) \<noteq> None)
      \<and> (\<forall>i. pcs c i \<noteq> Panicked))"

definition single :: "time \<Rightarrow> config \<Rightarrow> bool" where
  "single T0 c =
     ((\<forall>i. pcs c i = L101 \<longrightarrow> True \<notin> set (fetch_log c))
      \<and> (True \<in> set (fetch_log c) \<longrightarrow> settled T0 (shared c) \<or> (\<exists>i. is_storing (pcs c i)))
      \<and> True \<notin> set (butlast (fetch_log c)))"

definition served :: "rateCache \<Rightarrow> config \<Rightarrow> bool" where
  "served c0 c =
     ((True \<notin> set (fetch_log c) \<longrightarrow> shared c = c0)
      \<and> (\<forall>i. has_rates (pcs c i) \<longrightarrow> True \<in> set (fetch_log c)))"

definition inv :: "time \<Rightarrow> config \<Rightarrow> bool" where
  "inv T0 c = (mutex c \<and> stamps T0 c \<and> single T0 c)"

subsection \<open>Invariant and test data\<close>

text \<open>A cached snapshot is denominated in the expected base currency.\<close>

definition cache_ok :: "rateCache \<Rightarrow> bool" where
  "cache_ok c = (case payload c of None \<Rightarrow> True | Some p \<Rightarrow> Base p = ''USD'')"

text \<open>
  \<open>based\<close>: the cached snapshot, and every fetched snapshot waiting to be stored, is
  in the expected base currency.
\<close>

fun usd :: "pc \<Rightarrow> bool" where
  "usd (L106 p t) = (Base p = ''USD'')"
| "usd l = True"

definition based :: "config \<Rightarrow> bool" where
  "based c = (cache_ok (shared c) \<and> (\<forall>i. usd (pcs c i)))"

text \<open>
  The response of the specification's scenario, a 503 reply, a reply in the wrong base
  currency, a 201 reply with the scenario's body, a 204 reply, the state at process start, a state holding a snapshot fetched at time
  1000, and a call whose clock readings all are \<open>t\<close>.
\<close>

definition sample_payload :: frankfurterResponse where
  "sample_payload =
     \<lparr>Base = ''USD'', Date = ''2024-01-02'',
      Rates = [''CNY'' \<mapsto> 7.1, ''SEK'' \<mapsto> 10.4, ''EUR'' \<mapsto> 0.92, ''JPY'' \<mapsto> 150]\<rparr>"

definition sample_ok :: http_outcome where
  "sample_ok = Responded \<lparr>StatusCode = 200, Status = ''200 OK'', Body = Inr sample_payload\<rparr>"

definition sample_503 :: http_outcome where
  "sample_503 =
     Responded \<lparr>StatusCode = 503, Status = ''503 Service Unavailable'',
                Body = Inl ''invalid character'' \<rparr>"

definition sample_eur :: http_outcome where
  "sample_eur =
     Responded \<lparr>StatusCode = 200, Status = ''200 OK'',
                Body = Inr (sample_payload\<lparr>Base := ''EUR''\<rparr>)\<rparr>"

definition sample_201 :: http_outcome where
  "sample_201 =
     Responded \<lparr>StatusCode = 201, Status = ''201 Created'', Body = Inr sample_payload\<rparr>"

definition sample_204 :: http_outcome where
  "sample_204 =
     Responded \<lparr>StatusCode = 204, Status = ''204 No Content'', Body = Inl ''EOF''\<rparr>"

definition initial_state :: state where
  "initial_state = \<lparr>cache = initial_cache, fetch_calls = 0\<rparr>"

definition call_at :: "time \<Rightarrow> http_outcome \<Rightarrow> env" where
  "call_at t net = \<lparr>now_rlock = t, now_lock = t, upstream = net, now_fetch = t\<rparr>"

definition warm_state :: state where
  "warm_state = \<lparr>cache = \<lparr>payload = Some sample_payload, fetchedAt = 1000\<rparr>, fetch_calls = 1\<rparr>"

text \<open>The same state with the rates as a table on the heap.\<close>

definition warm_hstate :: hstate where
  "warm_hstate =
     \<lparr>cache_ref =
        \<lparr>payload_ref = Some \<lparr>Base_ref = ''USD'', Date_ref = ''2024-01-02'', Rates_ref = 0\<rparr>,
         fetchedAt_ref = 1000\<rparr>,
      heap = [Rates sample_payload]\<rparr>"

text \<open>
  Two schedules of two goroutines, 0 and 1, that both find the cache empty under the
  read lock and then queue for the write lock, which goroutine 0 gets first;
  \<open>move i t net\<close> is a step of goroutine \<open>i\<close> at clock reading \<open>t\<close>. In
  \<open>race_503\<close> the upstream answers 503 to both, in \<open>race_ok\<close> it answers goroutine
  0 with rates, which goroutine 1 then finds at its second check.
\<close>

definition move :: "nat \<Rightarrow> time \<Rightarrow> http_outcome \<Rightarrow> event" where
  "move i t net = \<lparr>who = i, clock = t, network = net\<rparr>"

definition race_503 :: "event list" where
  "race_503 =
     [move 0 1 sample_503, move 1 2 sample_503, move 0 3 sample_503, move 1 4 sample_503,
      move 0 5 sample_503, move 1 6 sample_503, move 0 7 sample_503, move 0 8 sample_503,
      move 0 9 sample_503, move 1 10 sample_503, move 1 11 sample_503, move 1 12 sample_503]"

definition race_ok :: "event list" where
  "race_ok =
     [move 0 1 sample_ok, move 1 2 sample_ok, move 0 3 sample_ok, move 1 4 sample_ok,
      move 0 5 sample_ok, move 1 6 sample_ok, move 0 7 sample_ok, move 0 8 sample_ok,
      move 0 9 sample_ok, move 0 10 sample_ok, move 0 11 sample_ok, move 0 12 sample_ok,
      move 1 13 sample_ok, move 1 14 sample_ok, move 1 15 sample_ok]"

section \<open>Properties\<close>

subsection \<open>Auxiliary facts\<close>

lemma Since_fresh_iff: "(Since now t < cacheTTL) = (now < t + cacheTTL)"
  unfolding Since_def Sub_def Let_def cacheTTL_def maxDuration_def minDuration_def
  by (simp split: if_splits) linarith

lemma getRates_locked_fresh:
  "getRates_locked e s =
     (if fresh (now_lock e) (cache s)
      then (Inr (filterRates (the (payload (cache s))), fetchedAt (cache s)), s)
      else getRates_refresh e s)"
  by (simp add: getRates_locked_def fresh_def split: option.splits)

lemma getRates_fresh:
  "getRates e s =
     (if fresh (now_rlock e) (cache s)
      then (Inr (filterRates (the (payload (cache s))), fetchedAt (cache s)), s)
      else getRates_locked e s)"
  by (simp add: getRates_def fresh_def split: option.splits)

lemma fresh_iff: "fresh now c = (payload c \<noteq> None \<and> now < fetchedAt c + cacheTTL)"
  by (simp add: fresh_def Since_fresh_iff)

lemma getRates_refresh_failure:
  "fetchFrankfurter (upstream e) (now_fetch e) = Inl err \<Longrightarrow>
   getRates_refresh e s = (Inl err, s\<lparr>fetch_calls := Suc (fetch_calls s)\<rparr>)"
  by (simp add: getRates_refresh_def)

lemma getRates_refresh_success:
  "fetchFrankfurter (upstream e) (now_fetch e) = Inr (p, t) \<Longrightarrow>
   getRates_refresh e s =
     (Inr (filterRates p, t),
      \<lparr>cache = \<lparr>payload = Some p, fetchedAt = t\<rparr>, fetch_calls = Suc (fetch_calls s)\<rparr>)"
  by (simp add: getRates_refresh_def)

lemma getRates_refresh_calls:
  "fetch_calls (snd (getRates_refresh e s)) = Suc (fetch_calls s)"
  by (simp add: getRates_refresh_def split: sum.splits prod.splits)

lemma getRates_locked_calls:
  "fetch_calls (snd (getRates_locked e s)) =
     (if fresh (now_lock e) (cache s) then fetch_calls s else Suc (fetch_calls s))"
  by (simp add: getRates_locked_fresh getRates_refresh_calls)

lemma getRates_calls:
  "fetch_calls (snd (getRates e s)) =
     (if fresh (now_rlock e) (cache s) \<or> fresh (now_lock e) (cache s)
      then fetch_calls s else Suc (fetch_calls s))"
  by (simp add: getRates_fresh getRates_locked_calls)

lemma fetchFrankfurter_time:
  "fetchFrankfurter net now = Inr (p, t) \<Longrightarrow> t = now \<and> Base p = ''USD''"
  by (auto simp: fetchFrankfurter_def split: http_outcome.splits if_splits sum.splits)

lemma sample_fetch [simp]:
  "fetchFrankfurter sample_ok t = Inr (sample_payload, t)"
  "fetchFrankfurter sample_503 t = Inl (ErrorString ''frankfurter responded with status 503 Service Unavailable'')"
  "fetchFrankfurter sample_eur t = Inl (ErrorString ''unexpected base currency in response'')"
  "fetchFrankfurter (DoFailed msg) t = Inl (TransportError msg)"
  by (simp_all add: fetchFrankfurter_def sample_ok_def sample_503_def sample_eur_def
      sample_payload_def StatusOK_def)

lemma call_at_simps [simp]:
  "now_rlock (call_at t net) = t" "now_lock (call_at t net) = t" "upstream (call_at t net) = net"
  "now_fetch (call_at t net) = t"
  by (simp_all add: call_at_def)

lemma fresh_initial [simp]: "\<not> fresh t initial_cache"
  by (simp add: fresh_def initial_cache_def)

lemma initial_state_simps [simp]:
  "cache initial_state = initial_cache" "fetch_calls initial_state = 0"
  "payload initial_cache = None" "fetchedAt initial_cache = 0"
  by (simp_all add: initial_state_def initial_cache_def)

lemma warm_state_simps [simp]:
  "payload (cache warm_state) = Some sample_payload" "fetchedAt (cache warm_state) = 1000"
  "fetch_calls warm_state = 1"
  by (simp_all add: warm_state_def)

lemma getRates_success_cache:
  assumes "getRates e s = (Inr (r, t), s')"
  shows "\<exists>p. payload (cache s') = Some p \<and> r = filterRates p \<and> t = fetchedAt (cache s')"
  using assms
  by (auto simp: getRates_def getRates_locked_def getRates_refresh_def
      split: option.splits if_splits sum.splits prod.splits)

lemma getRates_initial_ok:
  "getRates (call_at t sample_ok) initial_state =
     (Inr (filterRates sample_payload, t),
      \<lparr>cache = \<lparr>payload = Some sample_payload, fetchedAt = t\<rparr>, fetch_calls = 1\<rparr>)"
  by (simp add: getRates_fresh getRates_locked_fresh getRates_refresh_def)

lemma filterRates_sample:
  "filterRates sample_payload = [''CNY'' \<mapsto> 7.1, ''SEK'' \<mapsto> 10.4, ''EUR'' \<mapsto> 0.92]"
  by (simp add: filterRates_def targetCurrencies_def sample_payload_def)

lemma filterRates_loop_lookup:
  "filterRates_loop codes rates result c =
     (if c \<in> set codes \<and> rates c \<noteq> None then rates c else result c)"
  by (induction codes arbitrary: result) (auto split: option.splits)

lemma getRates_eq:
  "getRates e s =
     (if fresh (now_rlock e) (cache s) \<or> fresh (now_lock e) (cache s)
      then (Inr (filterRates (the (payload (cache s))), fetchedAt (cache s)), s)
      else getRates_refresh e s)"
  by (simp add: getRates_fresh getRates_locked_fresh)

lemma getRates_fetch_failure:
  assumes "fetchFrankfurter (upstream e) (now_fetch e) = Inl err"
  shows "cache (snd (getRates e s)) = cache s"
    and "fetch_calls (snd (getRates e s)) = Suc (fetch_calls s) \<Longrightarrow> fst (getRates e s) = Inl err"
  using assms by (simp_all add: getRates_eq getRates_refresh_failure split: if_splits)

lemma sample_eur_parts:
  "StatusCode \<lparr>StatusCode = 200, Status = ''200 OK'',
                Body = Inr (sample_payload\<lparr>Base := ''EUR''\<rparr>)\<rparr> = StatusOK"
  "Base (sample_payload\<lparr>Base := ''EUR''\<rparr>) \<noteq> ''USD''"
  by (simp_all add: StatusOK_def)

subsection \<open>Auxiliary facts: references\<close>

lemma filterRates_loop_h_eq:
  "src < length h \<Longrightarrow> result < length h \<Longrightarrow> src \<noteq> result \<Longrightarrow>
   filterRates_loop_h codes src result h =
     h[result := filterRates_loop codes (h ! src) (h ! result)]"
proof (induction codes arbitrary: h)
  case Nil
  then show ?case by simp
next
  case (Cons code codes)
  show ?case
  proof (cases "(h ! src) code")
    case None
    then show ?thesis using Cons by simp
  next
    case (Some v)
    let ?h = "h[result := (h ! result)(code \<mapsto> v)]"
    have "filterRates_loop_h codes src result ?h =
            ?h[result := filterRates_loop codes (?h ! src) (?h ! result)]"
      using Cons.prems by (intro Cons.IH) simp_all
    then show ?thesis using Some Cons.prems by simp
  qed
qed

lemma filterRates_h_eq:
  assumes "Rates_ref p < length h"
  shows "filterRates_h p h = (length h, h @ [filterRates (abs_payload h p)])"
proof -
  have "filterRates_loop_h targetCurrencies (Rates_ref p) (length h) (h @ [Map.empty]) =
          (h @ [Map.empty])[length h := filterRates_loop targetCurrencies ((h @ [Map.empty]) ! Rates_ref p)
             ((h @ [Map.empty]) ! length h)]"
    using assms by (intro filterRates_loop_h_eq) simp_all
  then show ?thesis
    using assms by (simp add: filterRates_h_def make_map_def filterRates_def abs_payload_def nth_append)
qed

lemma getRates_refresh_h_eq:
  "getRates_refresh_h e s =
     (case fetchFrankfurter (upstream e) (now_fetch e) of
        Inl err \<Rightarrow> (Inl err, s)
      | Inr (p, t) \<Rightarrow>
          (Inr (Suc (length (heap s)), t),
           \<lparr>cache_ref =
              \<lparr>payload_ref = Some \<lparr>Base_ref = Base p, Date_ref = Date p, Rates_ref = length (heap s)\<rparr>,
               fetchedAt_ref = t\<rparr>,
            heap = heap s @ [Rates p, filterRates p]\<rparr>))"
proof (cases "fetchFrankfurter (upstream e) (now_fetch e)")
  case (Inl err)
  then show ?thesis
    by (simp add: getRates_refresh_h_def fetchFrankfurter_h_def)
next
  case (Inr pt)
  obtain p t where pt: "pt = (p, t)" by (cases pt)
  let ?p = "\<lparr>Base_ref = Base p, Date_ref = Date p, Rates_ref = length (heap s)\<rparr>"
  have "filterRates_h ?p (heap s @ [Rates p]) =
          (length (heap s @ [Rates p]), (heap s @ [Rates p]) @ [filterRates (abs_payload (heap s @ [Rates p]) ?p)])"
    by (intro filterRates_h_eq) simp
  moreover have "filterRates (abs_payload (heap s @ [Rates p]) ?p) = filterRates p"
    by (simp add: filterRates_def abs_payload_def)
  ultimately show ?thesis
    using Inr pt by (simp add: getRates_refresh_h_def fetchFrankfurter_h_def)
qed

lemma getRates_locked_h_eq:
  assumes "wf_hstate s"
  shows "getRates_locked_h e s =
           (if fresh (now_lock e) (abs_cache s) then served_h s else getRates_refresh_h e s)"
  using assms
  by (auto simp: getRates_locked_h_def wf_hstate_def fresh_def abs_cache_def served_h_def
      filterRates_h_eq split: option.splits)

lemma getRates_h_eq:
  assumes "wf_hstate s"
  shows "getRates_h e s =
           (if fresh (now_rlock e) (abs_cache s) \<or> fresh (now_lock e) (abs_cache s)
            then served_h s else getRates_refresh_h e s)"
  using assms
  by (auto simp: getRates_h_def getRates_locked_h_eq wf_hstate_def fresh_def abs_cache_def
      served_h_def filterRates_h_eq split: option.splits)

lemma served_h_fresh:
  assumes "wf_hstate s" "served_h s = (Inr (r, t), s')"
  shows "result_fresh s r s'"
  using assms
  by (auto simp: served_h_def result_fresh_def wf_hstate_def split: option.splits)

lemma served_h_abs:
  assumes "wf_hstate s" "served_h s = (Inr (r, t), s')" "payload_ref (cache_ref s) \<noteq> None"
  shows "abs_cache s' = abs_cache s
       \<and> heap s' ! r = filterRates (the (payload (abs_cache s)))
       \<and> t = fetchedAt (abs_cache s)"
  using assms
  by (auto simp: served_h_def wf_hstate_def abs_cache_def abs_payload_def nth_append
      split: option.splits)

lemma refresh_h_fresh:
  assumes "getRates_refresh_h e s = (Inr (r, t), s')"
  shows "result_fresh s r s'"
  using assms
  by (auto simp: getRates_refresh_h_eq result_fresh_def wf_hstate_def
      split: sum.splits prod.splits)

lemma refresh_h_abs:
  assumes "getRates_refresh_h e s = (Inr (r, t), s')"
  shows "getRates_refresh e \<lparr>cache = abs_cache s, fetch_calls = k\<rparr> =
           (Inr (heap s' ! r, t), \<lparr>cache = abs_cache s', fetch_calls = Suc k\<rparr>)"
  using assms
  by (auto simp: getRates_refresh_h_eq getRates_refresh_def abs_cache_def abs_payload_def nth_append
      split: sum.splits prod.splits)

lemma result_fresh_caller_writes:
  assumes "result_fresh s r s'"
  shows "abs_cache (caller_writes r m s') = abs_cache s'
       \<and> cache_ref (caller_writes r m s') = cache_ref s'
       \<and> wf_hstate (caller_writes r m s')"
  using assms
  by (auto simp: result_fresh_def caller_writes_def abs_cache_def abs_payload_def wf_hstate_def
      split: option.splits)

subsection \<open>Auxiliary facts: concurrent calls\<close>

lemma settled_fresh:
  "settled T0 sh \<Longrightarrow> now < T0 + cacheTTL \<Longrightarrow> fresh now sh"
  by (auto simp: settled_def fresh_iff)

lemma step_others: "step i now net c = Some c' \<Longrightarrow> j \<noteq> i \<Longrightarrow> pcs c' j = pcs c j"
  by (auto simp: step_def goto_def
      split: pc.splits if_splits nat.splits option.splits sum.splits prod.splits)

lemma step_writer:
  "step i now net c = Some c' \<Longrightarrow>
   writer c' =
     (if in_cs (pcs c' i) \<and> \<not> in_cs (pcs c i) then True
      else if in_cs (pcs c i) \<and> \<not> in_cs (pcs c' i) then False
      else writer c)"
  by (auto simp: step_def goto_def
      split: pc.splits if_splits nat.splits option.splits sum.splits prod.splits)

lemma step_acquire:
  "step i now net c = Some c' \<Longrightarrow> in_cs (pcs c' i) \<Longrightarrow> \<not> in_cs (pcs c i) \<Longrightarrow> \<not> writer c"
  by (auto simp: step_def goto_def
      split: pc.splits if_splits nat.splits option.splits sum.splits prod.splits)

lemma step_mutex:
  assumes m: "mutex c" and s: "step i now net c = Some c'"
  shows "mutex c'"
proof -
  have o: "\<And>j. j \<noteq> i \<Longrightarrow> pcs c' j = pcs c j"
    using s by (rule step_others)
  have w: "writer c' =
     (if in_cs (pcs c' i) \<and> \<not> in_cs (pcs c i) then True
      else if in_cs (pcs c i) \<and> \<not> in_cs (pcs c' i) then False
      else writer c)"
    using s by (rule step_writer)
  have a: "in_cs (pcs c' i) \<Longrightarrow> \<not> in_cs (pcs c i) \<Longrightarrow> \<not> writer c"
    using s by (rule step_acquire)
  have u: "\<And>j k. in_cs (pcs c j) \<Longrightarrow> in_cs (pcs c k) \<Longrightarrow> j = k"
    and h: "\<And>j. in_cs (pcs c j) \<Longrightarrow> writer c"
    using m by (auto simp: mutex_def)
  have others_out: "\<And>j. j \<noteq> i \<Longrightarrow> in_cs (pcs c' i) \<Longrightarrow> \<not> in_cs (pcs c' j)"
  proof
    fix j assume ji: "j \<noteq> i" and i': "in_cs (pcs c' i)" and j': "in_cs (pcs c' j)"
    have j0: "in_cs (pcs c j)" using j' o [OF ji] by simp
    show False
    proof (cases "in_cs (pcs c i)")
      case True
      then show False using u [OF j0 True] ji by simp
    next
      case False
      then show False using a [OF i' False] h [OF j0] by simp
    qed
  qed
  have uniq: "\<forall>j k. in_cs (pcs c' j) \<longrightarrow> in_cs (pcs c' k) \<longrightarrow> j = k"
  proof (intro allI impI)
    fix j k assume j': "in_cs (pcs c' j)" and k': "in_cs (pcs c' k)"
    show "j = k"
    proof (cases "j = i")
      case True
      then show ?thesis using others_out [of k] j' k' by auto
    next
      case False
      show ?thesis
      proof (cases "k = i")
        case True
        then show ?thesis using others_out [of j] j' k' False by auto
      next
        case kf: False
        show ?thesis using u [of j k] o [OF False] o [OF kf] j' k' by simp
      qed
    qed
  qed
  have held: "\<forall>j. in_cs (pcs c' j) \<longrightarrow> writer c'"
  proof (intro allI impI)
    fix j assume j': "in_cs (pcs c' j)"
    show "writer c'"
    proof (cases "j = i")
      case True
      then show ?thesis using j' w h [of i] by auto
    next
      case False
      then have j0: "in_cs (pcs c j)" using j' o by simp
      then have "\<not> in_cs (pcs c i)" using u [of i j] False by auto
      then show ?thesis using w h [OF j0] by auto
    qed
  qed
  show ?thesis
    unfolding mutex_def using uniq held by blast
qed

lemmas step_splits =
  pc.splits if_splits nat.splits option.splits sum.splits prod.splits

lemma step_stamped:
  "step i now net c = Some c' \<Longrightarrow> T0 \<le> now \<Longrightarrow> stamped T0 (pcs c i) \<Longrightarrow> stamped T0 (pcs c' i)"
  by (auto simp: step_def goto_def dest: fetchFrankfurter_time split: step_splits)

lemma step_payload:
  "step i now net c = Some c' \<Longrightarrow> payload (shared c) \<noteq> None \<Longrightarrow> payload (shared c') \<noteq> None"
  by (auto simp: step_def goto_def split: step_splits)

lemma step_L107:
  "step i now net c = Some c' \<Longrightarrow> is_L107 (pcs c' i) \<Longrightarrow> payload (shared c') \<noteq> None"
  by (auto simp: step_def goto_def split: step_splits)

lemma step_derefs:
  "step i now net c = Some c' \<Longrightarrow> derefs (pcs c' i) \<Longrightarrow> payload (shared c') \<noteq> None"
  by (auto simp: step_def goto_def fresh_def split: step_splits)

lemma step_Panicked:
  "step i now net c = Some c' \<Longrightarrow> pcs c' i = Panicked \<Longrightarrow>
   derefs (pcs c i) \<and> payload (shared c) = None"
  by (auto simp: step_def goto_def split: step_splits)

lemma step_log:
  "step i now net c = Some c' \<Longrightarrow>
   fetch_log c' =
     (if pcs c i = L101 then fetch_log c @ [is_L106 (pcs c' i)] else fetch_log c)"
  by (auto simp: step_def goto_def split: step_splits)

lemma step_to_L101:
  "step i now net c = Some c' \<Longrightarrow> pcs c' i = L101 \<Longrightarrow>
   pcs c i = L97 \<and> \<not> fresh now (shared c)"
  by (auto simp: step_def goto_def split: step_splits)

lemma step_settled:
  "step i now net c = Some c' \<Longrightarrow> settled T0 (shared c) \<Longrightarrow> stamped T0 (pcs c i) \<Longrightarrow>
   settled T0 (shared c')"
  by (auto simp: step_def goto_def settled_def split: step_splits)

lemma step_storing:
  "step i now net c = Some c' \<Longrightarrow> is_storing (pcs c i) \<Longrightarrow> stamped T0 (pcs c i) \<Longrightarrow>
   (is_L107 (pcs c i) \<Longrightarrow> payload (shared c) \<noteq> None) \<Longrightarrow>
   is_storing (pcs c' i) \<or> settled T0 (shared c')"
  by (auto simp: step_def goto_def settled_def split: step_splits)

lemma is_storing_in_cs: "is_storing l \<Longrightarrow> in_cs l"
  by (cases l) simp_all

lemma step_stamps:
  assumes st: "stamps T0 c" and s: "step i now net c = Some c'" and lo: "T0 \<le> now"
  shows "stamps T0 c'"
proof -
  have o: "\<And>j. j \<noteq> i \<Longrightarrow> pcs c' j = pcs c j"
    using s by (rule step_others)
  have pl: "payload (shared c) \<noteq> None \<Longrightarrow> payload (shared c') \<noteq> None"
    using s by (rule step_payload)
  have a: "\<forall>j. stamped T0 (pcs c' j)"
  proof
    fix j show "stamped T0 (pcs c' j)"
    proof (cases "j = i")
      case True
      have "stamped T0 (pcs c i)" using st by (simp add: stamps_def)
      from step_stamped [OF s lo this] show ?thesis using True by simp
    next
      case False
      then show ?thesis using st o by (simp add: stamps_def)
    qed
  qed
  have b: "\<forall>j. is_L107 (pcs c' j) \<longrightarrow> payload (shared c') \<noteq> None"
  proof (intro allI impI)
    fix j assume j': "is_L107 (pcs c' j)"
    show "payload (shared c') \<noteq> None"
    proof (cases "j = i")
      case True
      then show ?thesis using step_L107 [OF s] j' by simp
    next
      case False
      then have "is_L107 (pcs c j)" using j' o by simp
      then have "payload (shared c) \<noteq> None" using st by (auto simp: stamps_def)
      then show ?thesis by (rule pl)
    qed
  qed
  have d: "\<forall>j. derefs (pcs c' j) \<longrightarrow> payload (shared c') \<noteq> None"
  proof (intro allI impI)
    fix j assume j': "derefs (pcs c' j)"
    show "payload (shared c') \<noteq> None"
    proof (cases "j = i")
      case True
      then show ?thesis using step_derefs [OF s] j' by simp
    next
      case False
      then have "derefs (pcs c j)" using j' o by simp
      then have "payload (shared c) \<noteq> None" using st by (auto simp: stamps_def)
      then show ?thesis by (rule pl)
    qed
  qed
  have e: "\<forall>j. pcs c' j \<noteq> Panicked"
  proof
    fix j show "pcs c' j \<noteq> Panicked"
    proof (cases "j = i")
      case True
      show ?thesis
      proof
        assume "pcs c' j = Panicked"
        then have "derefs (pcs c i) \<and> payload (shared c) = None"
          using step_Panicked [OF s] True by simp
        then show False using st by (auto simp: stamps_def)
      qed
    next
      case False
      then show ?thesis using st o by (simp add: stamps_def)
    qed
  qed
  show ?thesis
    unfolding stamps_def using a b d e by blast
qed

lemma step_single:
  assumes si: "single T0 c" and m: "mutex c" and st: "stamps T0 c"
    and s: "step i now net c = Some c'" and hi: "now < T0 + cacheTTL"
  shows "single T0 c'"
proof -
  have o: "\<And>j. j \<noteq> i \<Longrightarrow> pcs c' j = pcs c j"
    using s by (rule step_others)
  have lg: "fetch_log c' =
     (if pcs c i = L101 then fetch_log c @ [is_L106 (pcs c' i)] else fetch_log c)"
    using s by (rule step_log)
  have u: "\<And>j k. in_cs (pcs c j) \<Longrightarrow> in_cs (pcs c k) \<Longrightarrow> j = k"
    using m by (auto simp: mutex_def)
  have s1: "\<And>j. pcs c j = L101 \<Longrightarrow> True \<notin> set (fetch_log c)"
    and s2: "True \<in> set (fetch_log c) \<Longrightarrow> settled T0 (shared c) \<or> (\<exists>j. is_storing (pcs c j))"
    and s3: "True \<notin> set (butlast (fetch_log c))"
    using si by (auto simp: single_def)
  have sti: "stamped T0 (pcs c i)"
    and l107: "is_L107 (pcs c i) \<Longrightarrow> payload (shared c) \<noteq> None"
    using st by (auto simp: stamps_def)
  have a: "\<forall>j. pcs c' j = L101 \<longrightarrow> True \<notin> set (fetch_log c')"
  proof (intro allI impI)
    fix j assume j': "pcs c' j = L101"
    show "True \<notin> set (fetch_log c')"
    proof (cases "j = i")
      case True
      then have from97: "pcs c i = L97" and stale: "\<not> fresh now (shared c)"
        using step_to_L101 [OF s] j' by simp_all
      have "True \<notin> set (fetch_log c)"
      proof
        assume "True \<in> set (fetch_log c)"
        then consider "settled T0 (shared c)" | j where "is_storing (pcs c j)"
          using s2 by blast
        then show False
        proof cases
          case 1
          then show False using stale settled_fresh [OF _ hi] by blast
        next
          case 2
          then have "in_cs (pcs c j)" by (rule is_storing_in_cs)
          then have "j = i" using u [of j i] from97 by simp
          then show False using 2 from97 by simp
        qed
      qed
      then show ?thesis using lg from97 by simp
    next
      case False
      then have j0: "pcs c j = L101" using j' o by simp
      then have "pcs c i \<noteq> L101" using u [of i j] False by auto
      then show ?thesis using lg s1 [OF j0] by simp
    qed
  qed
  have b: "True \<in> set (fetch_log c') \<longrightarrow>
             settled T0 (shared c') \<or> (\<exists>j. is_storing (pcs c' j))"
  proof
    assume t': "True \<in> set (fetch_log c')"
    show "settled T0 (shared c') \<or> (\<exists>j. is_storing (pcs c' j))"
    proof (cases "pcs c i = L101")
      case True
      then have "is_L106 (pcs c' i)" using t' lg s1 [OF True] by simp
      then have "is_storing (pcs c' i)" by (cases "pcs c' i") simp_all
      then show ?thesis by blast
    next
      case False
      then have "True \<in> set (fetch_log c)" using t' lg by simp
      then consider "settled T0 (shared c)" | j where "is_storing (pcs c j)"
        using s2 by blast
      then show ?thesis
      proof cases
        case 1
        then show ?thesis using step_settled [OF s _ sti] by blast
      next
        case 2
        show ?thesis
        proof (cases "j = i")
          case True
          then show ?thesis using step_storing [OF s _ sti l107] 2 by blast
        next
          case False
          then show ?thesis using 2 o by metis
        qed
      qed
    qed
  qed
  have d: "True \<notin> set (butlast (fetch_log c'))"
  proof (cases "pcs c i = L101")
    case True
    then show ?thesis using lg s1 [OF True] by simp
  next
    case False
    then show ?thesis using lg s3 by simp
  qed
  show ?thesis
    unfolding single_def using a b d by blast
qed

lemma stale_from_not_fresh: "stale_from T0 c0 \<Longrightarrow> T0 \<le> now \<Longrightarrow> \<not> fresh now c0"
  by (auto simp: stale_from_def fresh_iff)

lemma step_log_mono:
  "step i now net c = Some c' \<Longrightarrow> True \<in> set (fetch_log c) \<Longrightarrow> True \<in> set (fetch_log c')"
  by (simp add: step_log)

lemma step_shared:
  "step i now net c = Some c' \<Longrightarrow> \<not> is_storing (pcs c i) \<Longrightarrow> shared c' = shared c"
  by (auto simp: step_def goto_def split: step_splits)

lemma step_has_rates:
  "step i now net c = Some c' \<Longrightarrow> has_rates (pcs c' i) \<Longrightarrow>
   has_rates (pcs c i) \<or> fresh now (shared c) \<or> True \<in> set (fetch_log c')"
  by (auto simp: step_def goto_def split: step_splits)

lemma is_storing_has_rates: "is_storing l \<Longrightarrow> has_rates l"
  by (cases l) simp_all

lemma step_served:
  assumes sv: "served c0 c" and s: "step i now net c = Some c'"
    and stale: "stale_from T0 c0" and lo: "T0 \<le> now"
  shows "served c0 c'"
proof -
  have o: "\<And>j. j \<noteq> i \<Longrightarrow> pcs c' j = pcs c j"
    using s by (rule step_others)
  have v1: "True \<notin> set (fetch_log c) \<Longrightarrow> shared c = c0"
    and v2: "\<And>j. has_rates (pcs c j) \<Longrightarrow> True \<in> set (fetch_log c)"
    using sv by (auto simp: served_def)
  have mono: "True \<in> set (fetch_log c) \<Longrightarrow> True \<in> set (fetch_log c')"
    using s by (rule step_log_mono)
  have a: "True \<notin> set (fetch_log c') \<longrightarrow> shared c' = c0"
  proof
    assume n': "True \<notin> set (fetch_log c')"
    then have n: "True \<notin> set (fetch_log c)" using mono by blast
    then have "\<not> is_storing (pcs c i)" using v2 [of i] is_storing_has_rates by blast
    then have "shared c' = shared c" using step_shared [OF s] by simp
    then show "shared c' = c0" using v1 [OF n] by simp
  qed
  have b: "\<forall>j. has_rates (pcs c' j) \<longrightarrow> True \<in> set (fetch_log c')"
  proof (intro allI impI)
    fix j assume j': "has_rates (pcs c' j)"
    show "True \<in> set (fetch_log c')"
    proof (cases "j = i")
      case True
      then consider "has_rates (pcs c i)" | "fresh now (shared c)" | "True \<in> set (fetch_log c')"
        using step_has_rates [OF s] j' by blast
      then show ?thesis
      proof cases
        case 1
        then show ?thesis using v2 mono by blast
      next
        case 2
        have "True \<in> set (fetch_log c)"
        proof (rule ccontr)
          assume "True \<notin> set (fetch_log c)"
          then have "shared c = c0" by (rule v1)
          then show False using 2 stale_from_not_fresh [OF stale lo] by simp
        qed
        then show ?thesis by (rule mono)
      next
        case 3
        then show ?thesis .
      qed
    next
      case False
      then have "has_rates (pcs c j)" using j' o by simp
      then show ?thesis using v2 mono by blast
    qed
  qed
  show ?thesis
    unfolding served_def using a b by blast
qed

lemma inv_init: "inv T0 (init_config c0)"
  by (simp add: inv_def mutex_def stamps_def single_def init_config_def)

lemma served_init: "served c0 (init_config c0)"
  by (simp add: served_def init_config_def)

lemma step_inv:
  assumes "inv T0 c" "step i now net c = Some c'" "T0 \<le> now" "now < T0 + cacheTTL"
  shows "inv T0 c'"
  using assms step_mutex step_stamps step_single unfolding inv_def by blast

lemma run_inv:
  "inv T0 c \<Longrightarrow> in_window T0 evs \<Longrightarrow> run evs c = Some c' \<Longrightarrow> inv T0 c'"
proof (induction evs arbitrary: c)
  case Nil
  then show ?case by simp
next
  case (Cons ev evs)
  from Cons.prems(3) obtain c1 where
    c1: "step (who ev) (clock ev) (network ev) c = Some c1" and r: "run evs c1 = Some c'"
    by (auto split: option.splits)
  have w: "T0 \<le> clock ev" "clock ev < T0 + cacheTTL" "in_window T0 evs"
    using Cons.prems(2) by (simp_all add: in_window_def)
  have "inv T0 c1"
    using Cons.prems(1) c1 w(1,2) by (rule step_inv)
  then show ?case
    using w(3) r by (rule Cons.IH)
qed

lemma run_served:
  "served c0 c \<Longrightarrow> stale_from T0 c0 \<Longrightarrow> in_window T0 evs \<Longrightarrow> run evs c = Some c' \<Longrightarrow>
   served c0 c'"
proof (induction evs arbitrary: c)
  case Nil
  then show ?case by simp
next
  case (Cons ev evs)
  from Cons.prems(4) obtain c1 where
    c1: "step (who ev) (clock ev) (network ev) c = Some c1" and r: "run evs c1 = Some c'"
    by (auto split: option.splits)
  have w: "T0 \<le> clock ev" "in_window T0 evs"
    using Cons.prems(3) by (simp_all add: in_window_def)
  have "served c0 c1"
    using Cons.prems(1) c1 Cons.prems(2) w(1) by (rule step_served)
  then show ?case
    using Cons.prems(2) w(2) r by (rule Cons.IH)
qed

lemma one_True:
  assumes "True \<notin> set (butlast xs)"
  shows "length (filter id xs) \<le> 1 \<and> (True \<in> set xs \<longrightarrow> filter id xs = [True])"
proof (cases xs rule: rev_cases)
  case Nil
  then show ?thesis by simp
next
  case (snoc ys y)
  then have "filter id ys = []" using assms by (auto simp: filter_empty_conv)
  then show ?thesis using snoc assms by auto
qed

lemma move_simps [simp]: "who (move i t net) = i" "clock (move i t net) = t" "network (move i t net) = net"
  by (simp_all add: move_def)

lemma run_race_503:
  "map_option fetch_log (run race_503 (init_config initial_cache)) = Some [False, False]"
  by (simp add: race_503_def init_config_def step_def goto_def fresh_def)

lemma run_race_ok:
  "map_option fetch_log (run race_ok (init_config initial_cache)) = Some [True]
   \<and> map_option (\<lambda>c. pcs c 0) (run race_ok (init_config initial_cache)) =
       Some (Returned (Inr (filterRates sample_payload, 9)))
   \<and> map_option (\<lambda>c. pcs c 1) (run race_ok (init_config initial_cache)) =
       Some (Returned (Inr (filterRates sample_payload, 9)))"
  by (simp add: race_ok_def init_config_def step_def goto_def fresh_iff cacheTTL_def)

text \<open>
  The two models agree: a goroutine that runs through \<open>getRates\<close> with no other
  goroutine moving, from a state in which no lock is held, returns what \<open>getRates\<close>
  returns and leaves the cache that \<open>getRates\<close> leaves, after at most nine steps; it
  releases every lock it took, and it calls \<open>fetchFrankfurter\<close> as often.
\<close>

lemma run_alone_9:
  "run_alone 9 i e c =
   run_alone (Suc (Suc (Suc (Suc (Suc (Suc (Suc (Suc (Suc 0))))))))) i e c"
  by (simp add: eval_nat_numeral)

lemma run_alone_getRates:
  assumes idle: "readers c = 0" "\<not> writer c" "pcs c i = L88"
  shows "pcs (run_alone 9 i e c) i =
           Returned (fst (getRates e \<lparr>cache = shared c, fetch_calls = length (fetch_log c)\<rparr>))
       \<and> shared (run_alone 9 i e c) =
           cache (snd (getRates e \<lparr>cache = shared c, fetch_calls = length (fetch_log c)\<rparr>))
       \<and> length (fetch_log (run_alone 9 i e c)) =
           fetch_calls (snd (getRates e \<lparr>cache = shared c, fetch_calls = length (fetch_log c)\<rparr>))
       \<and> readers (run_alone 9 i e c) = 0 \<and> \<not> writer (run_alone 9 i e c)"
proof (cases "fresh (now_rlock e) (shared c)")
  case True
  then obtain p where p: "payload (shared c) = Some p"
    by (auto simp: fresh_def)
  show ?thesis
    using idle True p
    by (simp add: run_alone_9 step_def goto_def reading_def getRates_fresh)
next
  case stale: False
  show ?thesis
  proof (cases "fresh (now_lock e) (shared c)")
    case True
    then obtain p where p: "payload (shared c) = Some p"
      by (auto simp: fresh_def)
    show ?thesis
      using idle stale True p
      by (simp add: run_alone_9 step_def goto_def reading_def getRates_fresh getRates_locked_fresh)
  next
    case stale': False
    show ?thesis
    proof (cases "fetchFrankfurter (upstream e) (now_fetch e)")
      case (Inl err)
      then show ?thesis
        using idle stale stale'
        by (simp add: run_alone_9 step_def goto_def reading_def getRates_fresh
            getRates_locked_fresh getRates_refresh_def)
    next
      case (Inr pt)
      obtain p t where "pt = (p, t)" by (cases pt)
      then show ?thesis
        using idle stale stale' Inr
        by (simp add: run_alone_9 step_def goto_def reading_def getRates_fresh
            getRates_locked_fresh getRates_refresh_def)
    qed
  qed
qed

lemma step_usd:
  "step i now net c = Some c' \<Longrightarrow> usd (pcs c i) \<Longrightarrow> usd (pcs c' i)"
  by (auto simp: step_def goto_def dest: fetchFrankfurter_time split: step_splits)

lemma step_cache_ok:
  "step i now net c = Some c' \<Longrightarrow> cache_ok (shared c) \<Longrightarrow> usd (pcs c i) \<Longrightarrow>
   cache_ok (shared c')"
  by (auto simp: step_def goto_def cache_ok_def split: step_splits)

lemma step_based:
  assumes b: "based c" and s: "step i now net c = Some c'"
  shows "based c'"
proof -
  have o: "\<And>j. j \<noteq> i \<Longrightarrow> pcs c' j = pcs c j"
    using s by (rule step_others)
  have u: "\<And>j. usd (pcs c j)" and k: "cache_ok (shared c)"
    using b by (simp_all add: based_def)
  have "usd (pcs c' j)" for j
  proof (cases "j = i")
    case True
    then show ?thesis using step_usd [OF s u] by simp
  next
    case False
    then show ?thesis using o u by simp
  qed
  moreover have "cache_ok (shared c')"
    using s k u by (rule step_cache_ok)
  ultimately show ?thesis
    by (simp add: based_def)
qed

lemma run_based: "based c \<Longrightarrow> run evs c = Some c' \<Longrightarrow> based c'"
proof (induction evs arbitrary: c)
  case Nil
  then show ?case by simp
next
  case (Cons ev evs)
  from Cons.prems(2) obtain c1 where
    c1: "step (who ev) (clock ev) (network ev) c = Some c1" and r: "run evs c1 = Some c'"
    by (auto split: option.splits)
  have "based c1"
    using Cons.prems(1) c1 by (rule step_based)
  then show ?case
    using r by (rule Cons.IH)
qed

subsection \<open>Auxiliary facts: the invariant and the test data\<close>

lemma getRates_step:
  "cache (snd (getRates e s)) = cache s
   \<or> (\<exists>p. fetchFrankfurter (upstream e) (now_fetch e) = Inr (p, now_fetch e)
          \<and> cache (snd (getRates e s)) = \<lparr>payload = Some p, fetchedAt = now_fetch e\<rparr>)"
proof (cases "fetchFrankfurter (upstream e) (now_fetch e)")
  case (Inl err)
  then show ?thesis by (simp add: getRates_fetch_failure(1))
next
  case (Inr pt)
  obtain p t where pt: "pt = (p, t)" by (cases pt)
  then have t: "t = now_fetch e" using Inr fetchFrankfurter_time by blast
  show ?thesis
    using Inr pt t by (simp add: getRates_eq getRates_refresh_success)
qed

lemma getRates_cache_ok:
  assumes "cache_ok (cache s)"
  shows "cache_ok (cache (snd (getRates e s)))"
proof -
  consider "cache (snd (getRates e s)) = cache s"
    | p where "fetchFrankfurter (upstream e) (now_fetch e) = Inr (p, now_fetch e)"
        "cache (snd (getRates e s)) = \<lparr>payload = Some p, fetchedAt = now_fetch e\<rparr>"
    using getRates_step [of e s] by blast
  then show ?thesis
  proof cases
    case 1
    then show ?thesis using assms by simp
  next
    case 2
    then have "Base p = ''USD''" using fetchFrankfurter_time by blast
    then show ?thesis using 2 by (simp add: cache_ok_def)
  qed
qed

lemma run_calls_provenance:
  "cache (run_calls es s) = cache s
   \<or> (\<exists>e\<in>set es. \<exists>p. fetchFrankfurter (upstream e) (now_fetch e) =
                          Inr (p, fetchedAt (cache (run_calls es s)))
                      \<and> payload (cache (run_calls es s)) = Some p)"
proof (induction es arbitrary: s)
  case Nil
  then show ?case by simp
next
  case (Cons e es)
  let ?s1 = "snd (getRates e s)"
  let ?f = "run_calls es ?s1"
  consider "cache ?f = cache ?s1"
    | e' p where "e' \<in> set es"
        "fetchFrankfurter (upstream e') (now_fetch e') = Inr (p, fetchedAt (cache ?f))"
        "payload (cache ?f) = Some p"
    using Cons.IH [of ?s1] by blast
  then show ?case
  proof cases
    case 1
    consider "cache ?s1 = cache s"
      | p where "fetchFrankfurter (upstream e) (now_fetch e) = Inr (p, now_fetch e)"
          "cache ?s1 = \<lparr>payload = Some p, fetchedAt = now_fetch e\<rparr>"
      using getRates_step [of e s] by blast
    then show ?thesis
    proof cases
      case a: 1
      then show ?thesis using 1 by simp
    next
      case b: 2
      then show ?thesis using 1 by auto
    qed
  next
    case 2
    then show ?thesis by auto
  qed
qed

lemma getRates_h_keeps_heap:
  assumes "wf_hstate s"
  shows "take (length (heap s)) (heap (snd (getRates_h e s))) = heap s
       \<and> wf_hstate (snd (getRates_h e s))"
  using assms
  by (auto simp: getRates_h_eq served_h_def getRates_refresh_h_eq wf_hstate_def
      split: sum.splits prod.splits option.splits)

lemma run_calls_sample:
  "run_calls [call_at 7 sample_503, call_at 1000 sample_ok] initial_state =
     \<lparr>cache = \<lparr>payload = Some sample_payload, fetchedAt = 1000\<rparr>, fetch_calls = 2\<rparr>"
  by (simp add: getRates_eq getRates_refresh_def)

lemma getRates_h_warm:
  "getRates_h (call_at 2000 sample_503) warm_hstate =
     (Inr (1, 1000), warm_hstate\<lparr>heap := [Rates sample_payload, filterRates sample_payload]\<rparr>)"
proof -
  have w: "wf_hstate warm_hstate"
    by (simp add: wf_hstate_def warm_hstate_def)
  have f: "fresh 2000 (abs_cache warm_hstate)"
    unfolding fresh_iff by (simp add: abs_cache_def warm_hstate_def cacheTTL_def)
  have a: "abs_payload (heap warm_hstate) (the (payload_ref (cache_ref warm_hstate))) = sample_payload"
    by (simp add: abs_payload_def warm_hstate_def sample_payload_def)
  show ?thesis
    using f a by (simp add: getRates_h_eq [OF w] served_h_def) (simp add: warm_hstate_def)
qed

subsection \<open>A failed fetch leaves the cache alone\<close>

text \<open>
  Claim C1. Whenever the network outcome makes \<open>fetchFrankfurter\<close> fail, a call of
  \<open>getRates\<close> leaves the cache exactly as it was, both fields: a snapshot that was
  there stays, and where there was none, none is stored. If the call did invoke
  \<open>fetchFrankfurter\<close> (the call counter went up), it returns that error. The same
  holds of the part under the write lock, whatever the cache holds when the lock is taken.
\<close>

theorem getRates_failure_keeps_cache:
  assumes fails: "fetchFrankfurter (upstream e) (now_fetch e) = Inl err"
  shows "cache (snd (getRates e s)) = cache s
       \<and> (fetch_calls (snd (getRates e s)) = Suc (fetch_calls s) \<longrightarrow> fst (getRates e s) = Inl err)
       \<and> cache (snd (getRates_locked e s)) = cache s
       \<and> (fetch_calls (snd (getRates_locked e s)) = Suc (fetch_calls s) \<longrightarrow>
            fst (getRates_locked e s) = Inl err)"
proof -
  have r: "getRates_refresh e s = (Inl err, s\<lparr>fetch_calls := Suc (fetch_calls s)\<rparr>)"
    using fails by (rule getRates_refresh_failure)
  have l: "cache (snd (getRates_locked e s)) = cache s"
    by (simp add: getRates_locked_fresh r)
  have l': "fetch_calls (snd (getRates_locked e s)) = Suc (fetch_calls s) \<longrightarrow>
            fst (getRates_locked e s) = Inl err"
    by (simp add: getRates_locked_fresh r)
  have g: "cache (snd (getRates e s)) = cache s"
    by (simp add: getRates_fresh l)
  have g': "fetch_calls (snd (getRates e s)) = Suc (fetch_calls s) \<longrightarrow> fst (getRates e s) = Inl err"
    by (simp add: getRates_fresh getRates_locked_fresh r)
  show ?thesis
    by (intro conjI g g' l l')
qed

theorem getRates_failure_keeps_cache_witness:
  "fetchFrankfurter (upstream (call_at 7 sample_503)) (now_fetch (call_at 7 sample_503)) =
     Inl (ErrorString ''frankfurter responded with status 503 Service Unavailable'')
   \<and> fetch_calls (snd (getRates (call_at 7 sample_503) initial_state)) = Suc (fetch_calls initial_state)
   \<and> fst (getRates (call_at 7 sample_503) initial_state) =
       Inl (ErrorString ''frankfurter responded with status 503 Service Unavailable'')
   \<and> cache (snd (getRates (call_at 7 sample_503) initial_state)) = initial_cache
   \<and> payload (cache (snd (getRates (call_at 7 sample_503) initial_state))) = None
   \<and> fetch_calls (snd (getRates (call_at (1000 + cacheTTL) sample_503) warm_state)) =
       Suc (fetch_calls warm_state)
   \<and> fst (getRates (call_at (1000 + cacheTTL) sample_503) warm_state) =
       Inl (ErrorString ''frankfurter responded with status 503 Service Unavailable'')
   \<and> cache (snd (getRates (call_at (1000 + cacheTTL) sample_503) warm_state)) =
       \<lparr>payload = Some sample_payload, fetchedAt = 1000\<rparr>"
proof -
  let ?err = "ErrorString ''frankfurter responded with status 503 Service Unavailable''"
  have c0: "fetch_calls (snd (getRates (call_at 7 sample_503) initial_state)) =
              Suc (fetch_calls initial_state)"
    by (simp add: getRates_calls)
  have c1: "fetch_calls (snd (getRates (call_at (1000 + cacheTTL) sample_503) warm_state)) =
              Suc (fetch_calls warm_state)"
    by (simp add: getRates_calls fresh_iff)
  have w: "cache warm_state = \<lparr>payload = Some sample_payload, fetchedAt = 1000\<rparr>"
    by (simp add: warm_state_def)
  show ?thesis
    using c0 c1 w
      getRates_failure_keeps_cache [of "call_at 7 sample_503" ?err initial_state]
      getRates_failure_keeps_cache [of "call_at (1000 + cacheTTL) sample_503" ?err warm_state]
    by simp
qed

subsection \<open>A fresh snapshot is served from the cache\<close>

text \<open>
  Claim C2. If the cache holds a snapshot whose age at the clock reading of the check,
  \<open>Since now fetchedAt\<close>, is below \<open>cacheTTL\<close>, then \<open>getRates\<close> returns the
  filtered snapshot with the cached \<open>fetchedAt\<close> and the state, call counter
  included, is unchanged: \<open>fetchFrankfurter\<close> is not invoked. The same holds of the
  second check, under the write lock. In particular, when a first call returned a
  snapshot stamped \<open>t1\<close> at or after \<open>T0\<close>, a second call that reads the clock at
  \<open>T0 + cacheTTL - eps\<close>, \<open>eps > 0\<close>, returns the same rates and the same
  \<open>fetchedAt\<close> and leaves the state as it is.
\<close>

theorem getRates_fresh_served:
  "(payload (cache s) = Some p \<and> Since (now_rlock e) (fetchedAt (cache s)) < cacheTTL \<longrightarrow>
      getRates e s = (Inr (filterRates p, fetchedAt (cache s)), s))
   \<and> (payload (cache s) = Some p \<and> Since (now_lock e) (fetchedAt (cache s)) < cacheTTL \<longrightarrow>
      getRates_locked e s = (Inr (filterRates p, fetchedAt (cache s)), s))
   \<and> (getRates e1 s0 = (Inr (r1, t1), s1) \<and> T0 \<le> t1 \<and> 0 < eps
        \<and> now_rlock e2 = T0 + cacheTTL - eps \<longrightarrow>
      getRates e2 s1 = (Inr (r1, t1), s1))"
proof (intro conjI impI)
  assume "payload (cache s) = Some p \<and> Since (now_rlock e) (fetchedAt (cache s)) < cacheTTL"
  then show "getRates e s = (Inr (filterRates p, fetchedAt (cache s)), s)"
    by (simp add: getRates_def)
next
  assume "payload (cache s) = Some p \<and> Since (now_lock e) (fetchedAt (cache s)) < cacheTTL"
  then show "getRates_locked e s = (Inr (filterRates p, fetchedAt (cache s)), s)"
    by (simp add: getRates_locked_def)
next
  assume a: "getRates e1 s0 = (Inr (r1, t1), s1) \<and> T0 \<le> t1 \<and> 0 < eps
        \<and> now_rlock e2 = T0 + cacheTTL - eps"
  then obtain p where p: "payload (cache s1) = Some p" "r1 = filterRates p" "t1 = fetchedAt (cache s1)"
    using getRates_success_cache by blast
  have "now_rlock e2 < fetchedAt (cache s1) + cacheTTL"
    using a p(3) by linarith
  then have "Since (now_rlock e2) (fetchedAt (cache s1)) < cacheTTL"
    by (simp add: Since_fresh_iff)
  then show "getRates e2 s1 = (Inr (r1, t1), s1)"
    using p by (simp add: getRates_def)
qed

theorem getRates_fresh_served_witness:
  "payload (cache warm_state) = Some sample_payload
   \<and> Since (now_rlock (call_at 299999999999 sample_503)) (fetchedAt (cache warm_state)) < cacheTTL
   \<and> getRates (call_at 299999999999 sample_503) warm_state =
       (Inr ([''CNY'' \<mapsto> 7.1, ''SEK'' \<mapsto> 10.4, ''EUR'' \<mapsto> 0.92], 1000), warm_state)
   \<and> getRates_locked (call_at 299999999999 sample_503) warm_state =
       (Inr ([''CNY'' \<mapsto> 7.1, ''SEK'' \<mapsto> 10.4, ''EUR'' \<mapsto> 0.92], 1000), warm_state)
   \<and> getRates (call_at 1000 sample_ok) initial_state = (Inr (filterRates sample_payload, 1000), warm_state)
   \<and> getRates (call_at (1000 + cacheTTL - 1) sample_503) warm_state =
       (Inr (filterRates sample_payload, 1000), warm_state)"
proof -
  have a: "Since (now_rlock (call_at 299999999999 sample_503)) (fetchedAt (cache warm_state)) < cacheTTL"
    "Since (now_lock (call_at 299999999999 sample_503)) (fetchedAt (cache warm_state)) < cacheTTL"
    unfolding Since_fresh_iff by (simp_all add: cacheTTL_def)
  have b: "getRates (call_at 1000 sample_ok) initial_state = (Inr (filterRates sample_payload, 1000), warm_state)"
    by (simp add: getRates_initial_ok warm_state_def)
  have c: "now_rlock (call_at (1000 + cacheTTL - 1) sample_503) = 1000 + cacheTTL - 1"
    by simp
  show ?thesis
    using a b c
      getRates_fresh_served [of warm_state sample_payload "call_at 299999999999 sample_503"
        "call_at 1000 sample_ok" initial_state "filterRates sample_payload" 1000 warm_state 1000 1
        "call_at (1000 + cacheTTL - 1) sample_503"]
    by (simp add: filterRates_sample)
qed

subsection \<open>What filterRates keeps\<close>

text \<open>
  Claim C3. The filtered map has the value \<open>v\<close> at the code \<open>c\<close> if and only if
  \<open>c\<close> is a target currency and the snapshot's rates have \<open>v\<close> at \<open>c\<close>; this holds
  of the loop for any list of target codes. A target code the upstream rates lack is
  left out, and the result is a map in every case: its domain is the target codes that
  the upstream rates have. With upstream codes A, B, C, D and targets A, B, C the
  result has exactly A, B, C; with upstream codes A, B, D it has exactly A, B.
\<close>

theorem filterRates_exact:
  "((filterRates p c = Some v) = (c \<in> set targetCurrencies \<and> Rates p c = Some v))
   \<and> ((filterRates_loop targets rates Map.empty c = Some v) = (c \<in> set targets \<and> rates c = Some v))
   \<and> dom (filterRates_loop targets rates Map.empty) = set targets \<inter> dom rates
   \<and> (dom rates = {A, B, C, D} \<longrightarrow> dom (filterRates_loop [A, B, C] rates Map.empty) = {A, B, C})
   \<and> (dom rates = {A, B, D} \<and> C \<notin> {A, B, D} \<longrightarrow>
        dom (filterRates_loop [A, B, C] rates Map.empty) = {A, B})"
proof -
  have look: "\<And>ts r. (filterRates_loop ts r Map.empty c = Some v) = (c \<in> set ts \<and> r c = Some v)"
    by (auto simp: filterRates_loop_lookup)
  have d: "\<And>ts r. dom (filterRates_loop ts r Map.empty) = set ts \<inter> dom r"
    by (auto simp: filterRates_loop_lookup dom_def)
  have ex1: "dom rates = {A, B, C, D} \<longrightarrow> dom (filterRates_loop [A, B, C] rates Map.empty) = {A, B, C}"
    unfolding d by auto
  have ex2: "dom rates = {A, B, D} \<and> C \<notin> {A, B, D} \<longrightarrow>
        dom (filterRates_loop [A, B, C] rates Map.empty) = {A, B}"
    unfolding d by auto
  show ?thesis
    unfolding filterRates_def by (intro conjI look d ex1 ex2)
qed

theorem filterRates_exact_witness:
  "dom [''A'' \<mapsto> 1, ''B'' \<mapsto> 2, ''C'' \<mapsto> 3, ''D'' \<mapsto> (4::real)] = {''A'', ''B'', ''C'', ''D''}
   \<and> dom (filterRates_loop [''A'', ''B'', ''C''] [''A'' \<mapsto> 1, ''B'' \<mapsto> 2, ''C'' \<mapsto> 3, ''D'' \<mapsto> 4] Map.empty) =
       {''A'', ''B'', ''C''}
   \<and> dom [''A'' \<mapsto> 1, ''B'' \<mapsto> 2, ''D'' \<mapsto> (4::real)] = {''A'', ''B'', ''D''}
   \<and> ''C'' \<notin> {''A'', ''B'', ''D''}
   \<and> dom (filterRates_loop [''A'', ''B'', ''C''] [''A'' \<mapsto> 1, ''B'' \<mapsto> 2, ''D'' \<mapsto> 4] Map.empty) =
       {''A'', ''B''}"
proof -
  have d1: "dom [''A'' \<mapsto> 1, ''B'' \<mapsto> 2, ''C'' \<mapsto> 3, ''D'' \<mapsto> (4::real)] = {''A'', ''B'', ''C'', ''D''}"
    by auto
  have d2: "dom [''A'' \<mapsto> 1, ''B'' \<mapsto> 2, ''D'' \<mapsto> (4::real)] = {''A'', ''B'', ''D''}"
    by auto
  have n: "''C'' \<notin> {''A'', ''B'', ''D''}"
    by simp
  have e1: "dom (filterRates_loop [''A'', ''B'', ''C''] [''A'' \<mapsto> 1, ''B'' \<mapsto> 2, ''C'' \<mapsto> 3, ''D'' \<mapsto> 4] Map.empty) =
       {''A'', ''B'', ''C''}"
    by (rule filterRates_exact [where A = "''A''" and B = "''B''" and C = "''C''" and D = "''D''"
        and rates = "[''A'' \<mapsto> 1, ''B'' \<mapsto> 2, ''C'' \<mapsto> 3, ''D'' \<mapsto> 4]",
        THEN conjunct2, THEN conjunct2, THEN conjunct2, THEN conjunct1, THEN mp, OF d1])
  have e2: "dom (filterRates_loop [''A'', ''B'', ''C''] [''A'' \<mapsto> 1, ''B'' \<mapsto> 2, ''D'' \<mapsto> 4] Map.empty) =
       {''A'', ''B''}"
    by (rule filterRates_exact [where A = "''A''" and B = "''B''" and C = "''C''" and D = "''D''"
        and rates = "[''A'' \<mapsto> 1, ''B'' \<mapsto> 2, ''D'' \<mapsto> 4]",
        THEN conjunct2, THEN conjunct2, THEN conjunct2, THEN conjunct2, THEN mp, OF conjI, OF d2 n])
  show ?thesis
    by (intro conjI d1 d2 n e1 e2)
qed

subsection \<open>The error that getRates returns\<close>

text \<open>
  Claim C5, as stated, fails: \<open>getRates\<close> returns the error of
  \<open>fetchFrankfurter\<close> itself. On a 503 reply it returns the very status error the
  fetcher built, on a transport failure the transport error, and the two differ, so
  the caller of \<open>getRates\<close> does not see one normalised error.
\<close>

theorem getRates_error_not_normalized:
  "fetchFrankfurter sample_503 7 =
     Inl (ErrorString ''frankfurter responded with status 503 Service Unavailable'')
   \<and> fst (getRates (call_at 7 sample_503) initial_state) =
       Inl (ErrorString ''frankfurter responded with status 503 Service Unavailable'')
   \<and> fst (getRates (call_at 7 (DoFailed ''context deadline exceeded'')) initial_state) =
       Inl (TransportError ''context deadline exceeded'')
   \<and> fst (getRates (call_at 7 sample_503) initial_state) \<noteq>
       fst (getRates (call_at 7 (DoFailed ''context deadline exceeded'')) initial_state)"
  by (simp add: getRates_fresh getRates_locked_fresh getRates_refresh_def)

text \<open>
  Claim C5, amended. When a refresh is required (the cache is not fresh at either
  check) and \<open>fetchFrankfurter\<close> fails, \<open>getRates\<close> returns that same error value,
  unchanged. It is \<open>handleAllRate\<close> that answers every such error alike, with
  \<open>failed to fetch rates\<close> and status 502.
\<close>

theorem getRates_returns_fetch_error:
  assumes "fetchFrankfurter (upstream e) (now_fetch e) = Inl err"
    and "\<not> fresh (now_rlock e) (cache s)" and "\<not> fresh (now_lock e) (cache s)"
  shows "fst (getRates e s) = Inl err
       \<and> fst (handleAllRate MethodGet e s) = Error ''failed to fetch rates'' StatusBadGateway"
proof -
  have g: "getRates e s = (Inl err, s\<lparr>fetch_calls := Suc (fetch_calls s)\<rparr>)"
    using assms by (simp add: getRates_fresh getRates_locked_fresh getRates_refresh_failure)
  then show ?thesis
    by (simp add: handleAllRate_def)
qed

theorem getRates_returns_fetch_error_witness:
  "fetchFrankfurter (upstream (call_at 7 (DoFailed ''context deadline exceeded'')))
      (now_fetch (call_at 7 (DoFailed ''context deadline exceeded''))) =
     Inl (TransportError ''context deadline exceeded'')
   \<and> \<not> fresh (now_rlock (call_at 7 (DoFailed ''context deadline exceeded''))) (cache initial_state)
   \<and> \<not> fresh (now_lock (call_at 7 (DoFailed ''context deadline exceeded''))) (cache initial_state)
   \<and> fst (getRates (call_at 7 (DoFailed ''context deadline exceeded'')) initial_state) =
       Inl (TransportError ''context deadline exceeded'')
   \<and> fst (handleAllRate ''GET'' (call_at 7 (DoFailed ''context deadline exceeded'')) initial_state) =
       Error ''failed to fetch rates'' 502"
  using getRates_returns_fetch_error [of "call_at 7 (DoFailed ''context deadline exceeded'')"
      "TransportError ''context deadline exceeded''" initial_state]
  by (simp add: MethodGet_def StatusBadGateway_def)

subsection \<open>A stale or absent snapshot is fetched anew\<close>

text \<open>
  Claim C6. If the cache holds no snapshot, or one whose age at the first check is not
  below \<open>cacheTTL\<close>, and the clock does not run backwards during the call, then
  \<open>getRates\<close> invokes \<open>fetchFrankfurter\<close> (the call counter goes up by one). When
  the fetch succeeds, both fields of the cache are replaced by its result, that result
  is returned filtered, and the returned \<open>fetchedAt\<close> is strictly later than the one
  of the snapshot it replaces. A snapshot is stale at every reading
  \<open>fetchedAt + cacheTTL + eps\<close> with \<open>eps \<ge> 0\<close>. Under the write lock, a cache
  that is not fresh at the second check makes the call invoke \<open>fetchFrankfurter\<close>,
  whatever other calls did before the lock was taken.
\<close>

theorem getRates_stale_refetches:
  assumes stale: "\<not> fresh (now_rlock e) (cache s)"
    and mono: "now_rlock e \<le> now_lock e" "now_lock e \<le> now_fetch e"
  shows "fetch_calls (snd (getRates e s)) = Suc (fetch_calls s)
       \<and> (\<forall>p t. fetchFrankfurter (upstream e) (now_fetch e) = Inr (p, t) \<longrightarrow>
            getRates e s =
              (Inr (filterRates p, now_fetch e),
               \<lparr>cache = \<lparr>payload = Some p, fetchedAt = now_fetch e\<rparr>,
                fetch_calls = Suc (fetch_calls s)\<rparr>)
            \<and> (payload (cache s) \<noteq> None \<longrightarrow> fetchedAt (cache s) < now_fetch e))
       \<and> (payload (cache s) \<noteq> None \<and> 0 \<le> eps \<and> now_rlock e' = fetchedAt (cache s) + cacheTTL + eps
            \<longrightarrow> \<not> fresh (now_rlock e') (cache s))
       \<and> (\<not> fresh (now_lock e) (cache s') \<longrightarrow>
            fetch_calls (snd (getRates_locked e s')) = Suc (fetch_calls s'))"
proof -
  have stale': "\<not> fresh (now_lock e) (cache s)"
    using stale mono(1) by (auto simp: fresh_iff)
  have g: "getRates e s = getRates_refresh e s"
    using stale stale' by (simp add: getRates_fresh getRates_locked_fresh)
  have c: "fetch_calls (snd (getRates e s)) = Suc (fetch_calls s)"
    by (simp add: g getRates_refresh_calls)
  have later: "payload (cache s) \<noteq> None \<longrightarrow> fetchedAt (cache s) < now_fetch e"
    using stale mono by (auto simp: fresh_iff cacheTTL_def)
  have s: "\<forall>p t. fetchFrankfurter (upstream e) (now_fetch e) = Inr (p, t) \<longrightarrow>
            getRates e s =
              (Inr (filterRates p, now_fetch e),
               \<lparr>cache = \<lparr>payload = Some p, fetchedAt = now_fetch e\<rparr>,
                fetch_calls = Suc (fetch_calls s)\<rparr>)
            \<and> (payload (cache s) \<noteq> None \<longrightarrow> fetchedAt (cache s) < now_fetch e)"
  proof (intro allI impI conjI)
    fix p t assume f: "fetchFrankfurter (upstream e) (now_fetch e) = Inr (p, t)"
    then have "t = now_fetch e" by (simp add: fetchFrankfurter_time)
    then show "getRates e s =
              (Inr (filterRates p, now_fetch e),
               \<lparr>cache = \<lparr>payload = Some p, fetchedAt = now_fetch e\<rparr>,
                fetch_calls = Suc (fetch_calls s)\<rparr>)"
      using f by (simp add: g getRates_refresh_success)
  next
    assume "payload (cache s) \<noteq> None"
    then show "fetchedAt (cache s) < now_fetch e" using later by simp
  qed
  have b: "payload (cache s) \<noteq> None \<and> 0 \<le> eps \<and> now_rlock e' = fetchedAt (cache s) + cacheTTL + eps
            \<longrightarrow> \<not> fresh (now_rlock e') (cache s)"
    by (auto simp: fresh_iff)
  have l: "\<not> fresh (now_lock e) (cache s') \<longrightarrow>
            fetch_calls (snd (getRates_locked e s')) = Suc (fetch_calls s')"
    by (simp add: getRates_locked_calls)
  show ?thesis
    by (intro conjI c s b l)
qed

theorem getRates_stale_refetches_witness:
  "\<not> fresh (now_rlock (call_at (1000 + cacheTTL) sample_ok)) (cache warm_state)
   \<and> now_rlock (call_at (1000 + cacheTTL) sample_ok) \<le> now_lock (call_at (1000 + cacheTTL) sample_ok)
   \<and> now_lock (call_at (1000 + cacheTTL) sample_ok) \<le> now_fetch (call_at (1000 + cacheTTL) sample_ok)
   \<and> fetchFrankfurter sample_ok (1000 + cacheTTL) = Inr (sample_payload, 1000 + cacheTTL)
   \<and> getRates (call_at (1000 + cacheTTL) sample_ok) warm_state =
       (Inr (filterRates sample_payload, 1000 + cacheTTL),
        \<lparr>cache = \<lparr>payload = Some sample_payload, fetchedAt = 1000 + cacheTTL\<rparr>, fetch_calls = 2\<rparr>)
   \<and> fetchedAt (cache warm_state) < 1000 + cacheTTL"
proof -
  have st: "\<not> fresh (now_rlock (call_at (1000 + cacheTTL) sample_ok)) (cache warm_state)"
    by (simp add: fresh_iff)
  have f: "fetchFrankfurter (upstream (call_at (1000 + cacheTTL) sample_ok))
             (now_fetch (call_at (1000 + cacheTTL) sample_ok)) = Inr (sample_payload, 1000 + cacheTTL)"
    by simp
  show ?thesis
    using st f getRates_stale_refetches [of "call_at (1000 + cacheTTL) sample_ok" warm_state 0
        "call_at (1000 + cacheTTL) sample_ok" warm_state]
    by simp
qed

subsection \<open>A response in the wrong base currency\<close>

text \<open>
  Claim C7, as stated, fails in its last clause. On a decoded response with base
  \<open>EUR\<close> the fetcher fails with \<open>unexpected base currency in response\<close>, and
  \<open>getRates\<close> returns that very error to its caller: it differs from the error
  \<open>getRates\<close> returns on a 503 reply, so the caller is not given one
  \<open>RatesUnavailableError\<close> for both.
\<close>

theorem base_mismatch_not_normalized:
  "fetchFrankfurter sample_eur 7 = Inl (ErrorString ''unexpected base currency in response'')
   \<and> fst (getRates (call_at 7 sample_eur) initial_state) =
       Inl (ErrorString ''unexpected base currency in response'')
   \<and> fst (getRates (call_at 7 sample_503) initial_state) =
       Inl (ErrorString ''frankfurter responded with status 503 Service Unavailable'')
   \<and> fst (getRates (call_at 7 sample_eur) initial_state) \<noteq>
       fst (getRates (call_at 7 sample_503) initial_state)"
  by (simp add: getRates_fresh getRates_locked_fresh getRates_refresh_def)

text \<open>
  Claim C7, amended. When the upstream response has passed the status check and its
  body has been decoded, and the decoded base currency is not \<open>USD\<close>,
  \<open>fetchFrankfurter\<close> fails with the error \<open>unexpected base currency in response\<close>
  and returns no snapshot. A call of \<open>getRates\<close> that receives this response leaves
  the cache as it was, and if it invoked the fetcher it returns that same error to
  its caller, unchanged.
\<close>

theorem fetch_base_mismatch:
  assumes ok: "StatusCode resp = StatusOK" and dec: "Body resp = Inr p"
    and base: "Base p \<noteq> ''USD''"
  shows "fetchFrankfurter (Responded resp) now =
           Inl (ErrorString ''unexpected base currency in response'')
       \<and> (upstream e = Responded resp \<longrightarrow>
            cache (snd (getRates e s)) = cache s
            \<and> (fetch_calls (snd (getRates e s)) = Suc (fetch_calls s) \<longrightarrow>
                 fst (getRates e s) = Inl (ErrorString ''unexpected base currency in response'')))"
proof -
  have f: "\<And>t. fetchFrankfurter (Responded resp) t =
           Inl (ErrorString ''unexpected base currency in response'')"
    using ok dec base by (simp add: fetchFrankfurter_def)
  have g: "upstream e = Responded resp \<longrightarrow>
            cache (snd (getRates e s)) = cache s
            \<and> (fetch_calls (snd (getRates e s)) = Suc (fetch_calls s) \<longrightarrow>
                 fst (getRates e s) = Inl (ErrorString ''unexpected base currency in response''))"
  proof (intro impI conjI)
    assume u: "upstream e = Responded resp"
    then have fe: "fetchFrankfurter (upstream e) (now_fetch e) =
           Inl (ErrorString ''unexpected base currency in response'')"
      using f by simp
    show "cache (snd (getRates e s)) = cache s"
      using fe by (rule getRates_fetch_failure(1))
    assume "fetch_calls (snd (getRates e s)) = Suc (fetch_calls s)"
    with fe show "fst (getRates e s) = Inl (ErrorString ''unexpected base currency in response'')"
      by (rule getRates_fetch_failure(2))
  qed
  show ?thesis
    using f g by blast
qed

theorem fetch_base_mismatch_witness:
  "fetchFrankfurter sample_eur 7 = Inl (ErrorString ''unexpected base currency in response'')
   \<and> cache (snd (getRates (call_at 7 sample_eur) initial_state)) = initial_cache
   \<and> fetch_calls (snd (getRates (call_at 7 sample_eur) initial_state)) = Suc (fetch_calls initial_state)
   \<and> fst (getRates (call_at 7 sample_eur) initial_state) =
       Inl (ErrorString ''unexpected base currency in response'')"
proof -
  have c: "fetch_calls (snd (getRates (call_at 7 sample_eur) initial_state)) = Suc (fetch_calls initial_state)"
    by (simp add: getRates_calls)
  have u: "upstream (call_at 7 sample_eur) =
      Responded \<lparr>StatusCode = 200, Status = ''200 OK'',
                Body = Inr (sample_payload\<lparr>Base := ''EUR''\<rparr>)\<rparr>"
    by (simp add: sample_eur_def)
  show ?thesis
    using c u
      fetch_base_mismatch [OF sample_eur_parts(1) _ sample_eur_parts(2), of 7
        "call_at 7 sample_eur" initial_state]
    by (simp add: sample_eur_def)
qed

subsection \<open>The status check\<close>

text \<open>
  Claim C8, as stated, fails for the success statuses other than 200. A reply
  \<open>201 Created\<close> that carries the scenario's body in base \<open>USD\<close>, and a reply
  \<open>204 No Content\<close>, both in the range 200 to 299, make \<open>fetchFrankfurter\<close> fail
  with the status error, and \<open>getRates\<close> with it.
\<close>

theorem success_status_rejected:
  "(200::int) \<le> 201 \<and> (201::int) < 300
   \<and> fetchFrankfurter sample_201 7 =
       Inl (ErrorString ''frankfurter responded with status 201 Created'')
   \<and> fst (getRates (call_at 7 sample_201) initial_state) =
       Inl (ErrorString ''frankfurter responded with status 201 Created'')
   \<and> (200::int) \<le> 204 \<and> (204::int) < 300
   \<and> fetchFrankfurter sample_204 7 =
       Inl (ErrorString ''frankfurter responded with status 204 No Content'')"
  by (simp add: fetchFrankfurter_def sample_201_def sample_204_def StatusOK_def
      getRates_fresh getRates_locked_fresh getRates_refresh_def)

text \<open>
  Claim C8, amended. Given an upstream response, \<open>fetchFrankfurter\<close> fails with the
  status error, whose message ends in the response's status text, exactly when the
  status code is not \<open>StatusOK\<close> (200); every other status, the other success
  statuses included, is refused. It returns a snapshot exactly when the status is
  \<open>StatusOK\<close>, the body decodes and the base is \<open>USD\<close>.
\<close>

theorem fetch_status_check:
  "(fetchFrankfurter (Responded resp) now =
      Inl (ErrorString (''frankfurter responded with status '' @ Status resp)))
     = (StatusCode resp \<noteq> StatusOK)
   \<and> ((\<exists>p t. fetchFrankfurter (Responded resp) now = Inr (p, t))
     = (StatusCode resp = StatusOK \<and> (\<exists>p. Body resp = Inr p \<and> Base p = ''USD'')))"
  by (auto simp: fetchFrankfurter_def split: sum.splits)

theorem fetch_status_check_witness:
  "fetchFrankfurter sample_503 7 =
     Inl (ErrorString ''frankfurter responded with status 503 Service Unavailable'')
   \<and> fetchFrankfurter sample_ok 7 = Inr (sample_payload, 7)"
proof -
  have a: "StatusCode \<lparr>StatusCode = 503, Status = ''503 Service Unavailable'',
                Body = Inl ''invalid character''\<rparr> \<noteq> StatusOK"
    by (simp add: StatusOK_def)
  have "fetchFrankfurter sample_503 7 =
     Inl (ErrorString ''frankfurter responded with status 503 Service Unavailable'')"
    using a fetch_status_check [of "\<lparr>StatusCode = 503, Status = ''503 Service Unavailable'',
                Body = Inl ''invalid character''\<rparr>" 7]
    by (simp add: sample_503_def)
  then show ?thesis by simp
qed

subsection \<open>The returned map is a new one\<close>

text \<open>
  Claim C10. With maps as references: every call of \<open>getRates\<close> that returns rates
  from a well-formed state returns a reference \<open>r\<close> to a table made during the
  call. It lies beyond the heap the call started with, it is not the reference the
  cache holds, and the tables that existed before are unchanged. So whatever the
  caller then writes into that table, the cache record and the snapshot it denotes
  stay the same. The table behind \<open>r\<close> holds what \<open>getRates\<close> on values returns, and
  the caches correspond.
\<close>

theorem getRates_result_fresh_map:
  assumes wf: "wf_hstate s" and ret: "getRates_h e s = (Inr (r, t), s')"
  shows "result_fresh s r s'
       \<and> abs_cache (caller_writes r m s') = abs_cache s'
       \<and> cache_ref (caller_writes r m s') = cache_ref s'
       \<and> fst (getRates e \<lparr>cache = abs_cache s, fetch_calls = k\<rparr>) = Inr (heap s' ! r, t)
       \<and> cache (snd (getRates e \<lparr>cache = abs_cache s, fetch_calls = k\<rparr>)) = abs_cache s'"
proof -
  let ?a = "\<lparr>cache = abs_cache s, fetch_calls = k\<rparr>"
  have fr: "result_fresh s r s'"
    using wf ret served_h_fresh refresh_h_fresh
    by (auto simp: getRates_h_eq split: if_splits)
  have ab: "fst (getRates e ?a) = Inr (heap s' ! r, t) \<and> cache (snd (getRates e ?a)) = abs_cache s'"
  proof (cases "fresh (now_rlock e) (abs_cache s) \<or> fresh (now_lock e) (abs_cache s)")
    case True
    then have sv: "served_h s = (Inr (r, t), s')"
      using wf ret by (simp add: getRates_h_eq)
    have "payload_ref (cache_ref s) \<noteq> None"
      using True by (auto simp: fresh_def abs_cache_def)
    from served_h_abs [OF wf sv this] show ?thesis
      using True by (simp add: getRates_eq)
  next
    case False
    then have "getRates_refresh_h e s = (Inr (r, t), s')"
      using wf ret by (simp add: getRates_h_eq)
    from refresh_h_abs [OF this, of k] show ?thesis
      using False by (simp add: getRates_eq)
  qed
  show ?thesis
    using fr ab result_fresh_caller_writes [OF fr, of m] by simp
qed

theorem getRates_result_fresh_map_witness:
  "wf_hstate warm_hstate
   \<and> getRates_h (call_at 2000 sample_503) warm_hstate =
       (Inr (1, 1000), warm_hstate\<lparr>heap := [Rates sample_payload, filterRates sample_payload]\<rparr>)
   \<and> result_fresh warm_hstate 1
       (warm_hstate\<lparr>heap := [Rates sample_payload, filterRates sample_payload]\<rparr>)
   \<and> abs_cache (caller_writes 1 Map.empty
         (warm_hstate\<lparr>heap := [Rates sample_payload, filterRates sample_payload]\<rparr>)) =
       abs_cache (warm_hstate\<lparr>heap := [Rates sample_payload, filterRates sample_payload]\<rparr>)
   \<and> cache_ref (caller_writes 1 Map.empty
         (warm_hstate\<lparr>heap := [Rates sample_payload, filterRates sample_payload]\<rparr>)) =
       cache_ref warm_hstate
   \<and> fst (getRates (call_at 2000 sample_503) \<lparr>cache = abs_cache warm_hstate, fetch_calls = 1\<rparr>) =
       Inr (filterRates sample_payload, 1000)"
proof -
  let ?s' = "warm_hstate\<lparr>heap := [Rates sample_payload, filterRates sample_payload]\<rparr>"
  have w: "wf_hstate warm_hstate"
    by (simp add: wf_hstate_def warm_hstate_def)
  note th = getRates_result_fresh_map [OF w getRates_h_warm, of Map.empty 1]
  have n: "heap ?s' ! 1 = filterRates sample_payload"
    by simp
  show ?thesis
    using w getRates_h_warm th n by simp
qed

subsection \<open>At most one successful fetch per window\<close>

text \<open>
  Claim C4, as stated, fails. Two goroutines call \<open>getRates\<close> on the empty cache,
  all clock readings within one window, and the upstream answers 503: the first
  fetches and fails, the second takes the write lock, finds the cache still empty
  and fetches again. \<open>fetchFrankfurter\<close> is invoked twice.
\<close>

theorem two_failed_fetches:
  "in_window 0 race_503
   \<and> payload initial_cache = None
   \<and> map_option fetch_log (run race_503 (init_config initial_cache)) = Some [False, False]
   \<and> map_option invocations (run race_503 (init_config initial_cache)) = Some 2"
proof -
  have w: "in_window 0 race_503"
    by (simp add: in_window_def race_503_def cacheTTL_def)
  show ?thesis
    using w run_race_503 by (auto simp: invocations_def)
qed

text \<open>
  Claim C4, amended. In every run of any number of concurrent calls, from any cache,
  whose clock readings all lie within one window of length \<open>cacheTTL\<close>: at most one
  call of \<open>fetchFrankfurter\<close> succeeds, and it is the last one made, every call
  before it having failed; no goroutine panics. If the cache was empty or stale
  throughout the window, then once any call has returned rates, exactly one fetch
  has succeeded.
\<close>

theorem single_flight:
  assumes r: "run evs (init_config c0) = Some c" and w: "in_window T0 evs"
  shows "successes c \<le> 1
       \<and> True \<notin> set (butlast (fetch_log c))
       \<and> (\<forall>i. pcs c i \<noteq> Panicked)
       \<and> (stale_from T0 c0 \<longrightarrow>
            (\<forall>i rates. pcs c i = Returned (Inr rates) \<longrightarrow> successes c = 1))"
proof -
  have i: "inv T0 c"
    using inv_init w r by (rule run_inv)
  then have bl: "True \<notin> set (butlast (fetch_log c))"
    by (simp add: inv_def single_def)
  have np: "\<forall>i. pcs c i \<noteq> Panicked"
    using i by (simp add: inv_def stamps_def)
  have le: "successes c \<le> 1"
    using one_True [OF bl] by (simp add: successes_def)
  have ex: "stale_from T0 c0 \<longrightarrow>
            (\<forall>i rates. pcs c i = Returned (Inr rates) \<longrightarrow> successes c = 1)"
  proof (intro impI allI)
    fix i rates assume st: "stale_from T0 c0" and ret: "pcs c i = Returned (Inr rates)"
    have "served c0 c"
      using served_init st w r by (rule run_served)
    then have "\<forall>j. has_rates (pcs c j) \<longrightarrow> True \<in> set (fetch_log c)"
      by (simp add: served_def)
    moreover have "has_rates (pcs c i)"
      using ret by simp
    ultimately have "True \<in> set (fetch_log c)"
      by blast
    then show "successes c = 1"
      using one_True [OF bl] by (simp add: successes_def)
  qed
  show ?thesis
    by (intro conjI le bl np ex)
qed

theorem single_flight_witness:
  "in_window 0 race_ok
   \<and> stale_from 0 initial_cache
   \<and> map_option fetch_log (run race_ok (init_config initial_cache)) = Some [True]
   \<and> map_option (\<lambda>c. pcs c 1) (run race_ok (init_config initial_cache)) =
       Some (Returned (Inr (filterRates sample_payload, 9)))
   \<and> map_option successes (run race_ok (init_config initial_cache)) = Some 1"
proof -
  have w: "in_window 0 race_ok"
    by (simp add: in_window_def race_ok_def cacheTTL_def)
  have st: "stale_from 0 initial_cache"
    by (simp add: stale_from_def)
  obtain c where c: "run race_ok (init_config initial_cache) = Some c"
    using run_race_ok by auto
  have ret: "pcs c 1 = Returned (Inr (filterRates sample_payload, 9))"
    using run_race_ok c by simp
  have "successes c = 1"
    using single_flight [OF c w] st ret by blast
  then show ?thesis
    using w st run_race_ok c by simp
qed

subsection \<open>The invariant of the cache\<close>

text \<open>
  Claim C9. A snapshot in the cache is in the base currency \<open>USD\<close>: this holds of the
  initial cache and every call of \<open>getRates\<close> preserves it. A call leaves the cache
  as it was or sets both its fields to the result of its own successful
  \<open>fetchFrankfurter\<close>; so after any sequence of calls from process start, a snapshot
  in the cache is, with its \<open>fetchedAt\<close>, what \<open>fetchFrankfurter\<close> returned to one of
  them. With maps as references, a call writes to no table that existed before it:
  the old heap is a prefix of the new one. The base currency invariant also holds in
  every state that concurrent calls reach.
\<close>

theorem cache_invariant:
  "cache_ok initial_cache
   \<and> (cache_ok (cache s) \<longrightarrow> cache_ok (cache (snd (getRates e s))))
   \<and> (cache (snd (getRates e s)) = cache s
        \<or> (\<exists>p. fetchFrankfurter (upstream e) (now_fetch e) = Inr (p, now_fetch e)
              \<and> cache (snd (getRates e s)) = \<lparr>payload = Some p, fetchedAt = now_fetch e\<rparr>))
   \<and> (payload (cache (run_calls es initial_state)) = Some p \<longrightarrow>
        Base p = ''USD''
        \<and> (\<exists>e\<in>set es. fetchFrankfurter (upstream e) (now_fetch e) =
                          Inr (p, fetchedAt (cache (run_calls es initial_state)))))
   \<and> (wf_hstate hs \<longrightarrow>
        take (length (heap hs)) (heap (snd (getRates_h e hs))) = heap hs
        \<and> wf_hstate (snd (getRates_h e hs)))
   \<and> (cache_ok c0 \<and> run evs (init_config c0) = Some c \<longrightarrow> cache_ok (shared c))"
proof -
  have a: "cache_ok initial_cache"
    by (simp add: cache_ok_def initial_cache_def)
  have b: "cache_ok (cache s) \<longrightarrow> cache_ok (cache (snd (getRates e s)))"
    using getRates_cache_ok by blast
  have d: "payload (cache (run_calls es initial_state)) = Some p \<longrightarrow>
        Base p = ''USD''
        \<and> (\<exists>e\<in>set es. fetchFrankfurter (upstream e) (now_fetch e) =
                          Inr (p, fetchedAt (cache (run_calls es initial_state))))"
  proof
    assume some: "payload (cache (run_calls es initial_state)) = Some p"
    then have "cache (run_calls es initial_state) \<noteq> cache initial_state"
      by auto
    then obtain e' p' where e': "e' \<in> set es"
      "fetchFrankfurter (upstream e') (now_fetch e') =
         Inr (p', fetchedAt (cache (run_calls es initial_state)))"
      "payload (cache (run_calls es initial_state)) = Some p'"
      using run_calls_provenance [of es initial_state] by blast
    then have "p' = p" using some by simp
    then show "Base p = ''USD''
        \<and> (\<exists>e\<in>set es. fetchFrankfurter (upstream e) (now_fetch e) =
                          Inr (p, fetchedAt (cache (run_calls es initial_state))))"
      using e' fetchFrankfurter_time by blast
  qed
  have h: "wf_hstate hs \<longrightarrow>
        take (length (heap hs)) (heap (snd (getRates_h e hs))) = heap hs
        \<and> wf_hstate (snd (getRates_h e hs))"
    using getRates_h_keeps_heap by blast
  have r: "cache_ok c0 \<and> run evs (init_config c0) = Some c \<longrightarrow> cache_ok (shared c)"
  proof
    assume as: "cache_ok c0 \<and> run evs (init_config c0) = Some c"
    then have "based (init_config c0)"
      by (simp add: based_def init_config_def)
    then have "based c"
      using as run_based by blast
    then show "cache_ok (shared c)"
      by (simp add: based_def)
  qed
  show ?thesis
    by (intro conjI a b getRates_step d h r)
qed

theorem cache_invariant_witness:
  "cache_ok (cache warm_state)
   \<and> cache_ok (cache (snd (getRates (call_at (1000 + cacheTTL) sample_ok) warm_state)))
   \<and> payload (cache (run_calls [call_at 7 sample_503, call_at 1000 sample_ok] initial_state)) =
       Some sample_payload
   \<and> Base sample_payload = ''USD''
   \<and> fetchFrankfurter sample_ok 1000 = Inr (sample_payload, 1000)
   \<and> wf_hstate warm_hstate
   \<and> take 1 (heap (snd (getRates_h (call_at 2000 sample_503) warm_hstate))) = heap warm_hstate
   \<and> cache_ok initial_cache
   \<and> map_option (\<lambda>c. cache_ok (shared c)) (run race_ok (init_config initial_cache)) = Some True"
proof -
  let ?es = "[call_at 7 sample_503, call_at 1000 sample_ok]"
  let ?e = "call_at (1000 + cacheTTL) sample_ok"
  have k: "cache_ok (cache warm_state)"
    by (simp add: cache_ok_def sample_payload_def)
  have p: "payload (cache (run_calls ?es initial_state)) = Some sample_payload"
    unfolding run_calls_sample by simp
  have w: "wf_hstate warm_hstate"
    by (simp add: wf_hstate_def warm_hstate_def)
  obtain c where c: "run race_ok (init_config initial_cache) = Some c"
    using run_race_ok by auto
  note th = cache_invariant [of warm_state ?e ?es sample_payload warm_hstate initial_cache race_ok c]
  have 1: "cache_ok (cache (snd (getRates ?e warm_state)))"
    using th k by blast
  have 2: "Base sample_payload = ''USD''"
    using th p by blast
  have 3: "cache_ok initial_cache"
    using th by blast
  have 4: "cache_ok (shared c)"
    using th c by blast
  have 5: "take (length (heap warm_hstate)) (heap (snd (getRates_h ?e warm_hstate))) = heap warm_hstate"
    using th w by blast
  have 6: "take 1 (heap (snd (getRates_h (call_at 2000 sample_503) warm_hstate))) = heap warm_hstate"
    by (simp add: getRates_h_warm) (simp add: warm_hstate_def)
  show ?thesis
    using k 1 p 2 w 3 4 6 c by simp
qed

end
